theory Spec2Isabelle
  imports Main
begin

section \<open>Strings\<close>

text \<open>
  A JavaScript string is a sequence of 16-bit code units; \<^verbatim>\<open>length\<close>, \<^verbatim>\<open>slice\<close>,
  \<^verbatim>\<open>lastIndexOf\<close> and the pattern engine (without the flag \<^verbatim>\<open>u\<close>) count and read code
  units. A code unit is modelled by its number (an integer), a string by the list of its code units;
  \<open>js\<close> turns a literal of Latin-1 characters into such a list.
\<close>

type_synonym code_unit = int

type_synonym jstring = "code_unit list"

definition js :: "string \<Rightarrow> jstring" where
  "js s = map of_char s"

definition space :: code_unit where
  "space = 32"

text \<open>The code units matched by \<^verbatim>\<open>\s\<close> and stripped by \<^verbatim>\<open>trim\<close>: the white space and
  the line terminators of the language.\<close>

definition is_space :: "code_unit \<Rightarrow> bool" where
  "is_space u =
     (u \<in> {9, 10, 11, 12, 13, 32, 160, 5760, 8232, 8233, 8239, 8287, 12288, 65279}
      \<or> (8192 \<le> u \<and> u \<le> 8202))"

text \<open>\<^verbatim>\<open>s.split(/\s+/)\<close>: the fields between maximal runs of white space; a leading or
  trailing run leaves an empty field, and the empty string gives one empty field.\<close>

fun split_ws_from :: "bool \<Rightarrow> jstring \<Rightarrow> jstring \<Rightarrow> jstring list" where
  "split_ws_from in_ws cur [] = [rev cur]"
| "split_ws_from in_ws cur (c # cs) =
     (if is_space c
      then (if in_ws then split_ws_from True [] cs
            else rev cur # split_ws_from True [] cs)
      else split_ws_from False (c # cur) cs)"

definition split_ws :: "jstring \<Rightarrow> jstring list" where
  "split_ws s = split_ws_from False [] s"

text \<open>\<^verbatim>\<open>!s.trim()\<close> holds when the string has white space only.\<close>

definition trim_is_empty :: "jstring \<Rightarrow> bool" where
  "trim_is_empty s = list_all is_space s"

text \<open>\<^verbatim>\<open>s.startsWith(t)\<close> at offset 0 and \<^verbatim>\<open>s.includes(t)\<close>.\<close>

fun starts_with :: "jstring \<Rightarrow> jstring \<Rightarrow> bool" where
  "starts_with s [] = True"
| "starts_with [] (c # t) = False"
| "starts_with (d # s) (c # t) = (d = c \<and> starts_with s t)"

fun includes_str :: "jstring \<Rightarrow> jstring \<Rightarrow> bool" where
  "includes_str [] t = (t = [])"
| "includes_str (c # s) t = (starts_with (c # s) t \<or> includes_str s t)"

text \<open>\<^verbatim>\<open>s.slice(a, b)\<close> for indices that are not negative.\<close>

definition slice :: "jstring \<Rightarrow> nat \<Rightarrow> nat \<Rightarrow> jstring" where
  "slice s a b = take (b - a) (drop a s)"

text \<open>\<^verbatim>\<open>s.lastIndexOf(c, pos)\<close> for a single code unit: the largest index up to
  \<open>pos\<close> that holds \<open>c\<close>, and -1 when there is none.\<close>

fun lastIndexOf :: "jstring \<Rightarrow> code_unit \<Rightarrow> nat \<Rightarrow> int" where
  "lastIndexOf s c 0 = (if s \<noteq> [] \<and> s ! 0 = c then 0 else -1)"
| "lastIndexOf s c (Suc k) =
     (if Suc k < length s \<and> s ! Suc k = c then int (Suc k) else lastIndexOf s c k)"

section \<open>The pattern engine\<close>

text \<open>
  \<^verbatim>\<open>new RegExp(pattern, 'gi')\<close> either raises a SyntaxError or yields a matcher. The
  development reads the following pattern language itself: ordinary characters, a
  backslash before one of the fourteen syntax characters, the dot, the anchors,
  alternation, capturing groups, and the quantifiers star, plus and question mark, greedy
  or lazy. What the constructor does with any other pattern (a character class, a brace,
  a group specifier, any other escape) is a parameter of the model, \<open>regexp_beyond\<close>
  below: an error, or a matcher given by the ends of its matches.

  The syntax characters by code: \<^verbatim>\<open>$\<close> 36, \<^verbatim>\<open>(\<close> 40, \<^verbatim>\<open>)\<close> 41, \<^verbatim>\<open>*\<close> 42, \<^verbatim>\<open>+\<close> 43,
  \<^verbatim>\<open>.\<close> 46, \<^verbatim>\<open>?\<close> 63, \<^verbatim>\<open>[\<close> 91, the backslash 92, \<^verbatim>\<open>]\<close> 93, \<^verbatim>\<open>^\<close> 94, \<^verbatim>\<open>{\<close> 123,
  \<^verbatim>\<open>|\<close> 124, \<^verbatim>\<open>}\<close> 125.
\<close>

datatype error = SyntaxError

datatype unread = Malformed | Beyond

definition backslash :: code_unit where
  "backslash = 92"

definition is_syntax_char :: "code_unit \<Rightarrow> bool" where
  "is_syntax_char c = (c \<in> {36, 40, 41, 42, 43, 46, 63, 91, 92, 93, 94, 123, 124, 125})"

datatype quant = QStar | QPlus | QOpt

datatype token =
    TChar code_unit | TDot | TCaret | TDollar | TBar | TLParen | TRParen
  | TQuant quant bool

datatype regex =
    Empty
  | Chr code_unit
  | AnyChar
  | AssertStart
  | AssertEnd
  | Seq regex regex
  | Alt regex regex
  | Star bool regex
  | Opt bool regex
  | Group regex
  | Foreign "jstring \<Rightarrow> nat \<Rightarrow> nat list"

definition quant_of :: "code_unit \<Rightarrow> quant option" where
  "quant_of c =
     (if c = 42 then Some QStar
      else if c = 43 then Some QPlus
      else if c = 63 then Some QOpt
      else None)"

text \<open>The lexical layer. A quantifier directly followed by a question mark is lazy; an
  opening parenthesis followed by a question mark starts a group specifier; a backslash
  at the end of the pattern is malformed. \<open>Beyond\<close> says that the pattern leaves the
  pattern language read here.\<close>

fun tokens :: "jstring \<Rightarrow> unread + token list" where
  "tokens [] = Inr []"
| "tokens (c # cs) =
     (if c = backslash then
        (case cs of
           [] \<Rightarrow> Inl Malformed
         | d # ds \<Rightarrow>
             if is_syntax_char d
             then (case tokens ds of Inl e \<Rightarrow> Inl e | Inr ts \<Rightarrow> Inr (TChar d # ts))
             else Inl Beyond)
      else if c = 40 then
        (case cs of
           d # ds \<Rightarrow>
             if d = 63 then Inl Beyond
             else (case tokens cs of Inl e \<Rightarrow> Inl e | Inr ts \<Rightarrow> Inr (TLParen # ts))
         | [] \<Rightarrow> Inr [TLParen])
      else if c = 41 then
        (case tokens cs of Inl e \<Rightarrow> Inl e | Inr ts \<Rightarrow> Inr (TRParen # ts))
      else if c = 124 then
        (case tokens cs of Inl e \<Rightarrow> Inl e | Inr ts \<Rightarrow> Inr (TBar # ts))
      else if c = 46 then
        (case tokens cs of Inl e \<Rightarrow> Inl e | Inr ts \<Rightarrow> Inr (TDot # ts))
      else if c = 94 then
        (case tokens cs of Inl e \<Rightarrow> Inl e | Inr ts \<Rightarrow> Inr (TCaret # ts))
      else if c = 36 then
        (case tokens cs of Inl e \<Rightarrow> Inl e | Inr ts \<Rightarrow> Inr (TDollar # ts))
      else
        (case quant_of c of
           Some k \<Rightarrow>
             (case cs of
                d # ds \<Rightarrow>
                  if d = 63
                  then (case tokens ds of Inl e \<Rightarrow> Inl e
                        | Inr ts \<Rightarrow> Inr (TQuant k False # ts))
                  else (case tokens cs of Inl e \<Rightarrow> Inl e
                        | Inr ts \<Rightarrow> Inr (TQuant k True # ts))
              | [] \<Rightarrow> Inr [TQuant k True])
         | None \<Rightarrow>
             if is_syntax_char c then Inl Beyond
             else (case tokens cs of Inl e \<Rightarrow> Inl e | Inr ts \<Rightarrow> Inr (TChar c # ts))))"

text \<open>The parser keeps, for the group being read, its finished alternatives and the terms
  of the current alternative (both latest first), the frames of the enclosing groups, and
  whether the last term may take a quantifier.\<close>

type_synonym frame = "regex list \<times> regex list"

type_synonym pstate = "frame \<times> frame list \<times> bool"

fun mk_seq :: "regex list \<Rightarrow> regex" where
  "mk_seq [] = Empty"
| "mk_seq (a # as) = Seq a (mk_seq as)"

fun mk_alt :: "regex list \<Rightarrow> regex" where
  "mk_alt [] = Empty"
| "mk_alt [a] = a"
| "mk_alt (a # b # bs) = Alt a (mk_alt (b # bs))"

definition close_frame :: "frame \<Rightarrow> regex" where
  "close_frame f = mk_alt (rev (mk_seq (rev (snd f)) # fst f))"

fun apply_quant :: "quant \<Rightarrow> bool \<Rightarrow> regex \<Rightarrow> regex" where
  "apply_quant QStar g a = Star g a"
| "apply_quant QPlus g a = Seq a (Star g a)"
| "apply_quant QOpt g a = Opt g a"

fun parse_step :: "token \<Rightarrow> pstate \<Rightarrow> error + pstate" where
  "parse_step (TChar c) ((alts, sq), stk, q) = Inr ((alts, Chr c # sq), stk, True)"
| "parse_step TDot ((alts, sq), stk, q) = Inr ((alts, AnyChar # sq), stk, True)"
| "parse_step TCaret ((alts, sq), stk, q) = Inr ((alts, AssertStart # sq), stk, False)"
| "parse_step TDollar ((alts, sq), stk, q) = Inr ((alts, AssertEnd # sq), stk, False)"
| "parse_step TBar ((alts, sq), stk, q) = Inr ((mk_seq (rev sq) # alts, []), stk, False)"
| "parse_step TLParen (f, stk, q) = Inr (([], []), f # stk, False)"
| "parse_step TRParen (f, [], q) = Inl SyntaxError"
| "parse_step TRParen (f, (alts, sq) # stk, q) =
     Inr ((alts, Group (close_frame f) # sq), stk, True)"
| "parse_step (TQuant k g) ((alts, []), stk, q) = Inl SyntaxError"
| "parse_step (TQuant k g) ((alts, a # sq), stk, q) =
     (if q then Inr ((alts, apply_quant k g a # sq), stk, False) else Inl SyntaxError)"

fun parse :: "token list \<Rightarrow> pstate \<Rightarrow> error + regex" where
  "parse [] (f, stk, q) = (if stk = [] then Inr (close_frame f) else Inl SyntaxError)"
| "parse (t # ts) st =
     (case parse_step t st of Inl e \<Rightarrow> Inl e | Inr st' \<Rightarrow> parse ts st')"

text \<open>\<^verbatim>\<open>new RegExp(pattern, 'gi')\<close>. The parameter \<open>beyond\<close> is what the constructor does
  with a pattern that is not read here.\<close>

definition RegExp_gi :: "(jstring \<Rightarrow> error + regex) \<Rightarrow> jstring \<Rightarrow> error + regex" where
  "RegExp_gi beyond pattern =
     (case tokens pattern of
        Inl Malformed \<Rightarrow> Inl SyntaxError
      | Inl Beyond \<Rightarrow> beyond pattern
      | Inr ts \<Rightarrow> parse ts (([], []), [], False))"

text \<open>Matching with the flag \<^verbatim>\<open>i\<close> compares the canonical forms of code units; the
  function \<open>canon\<close> that gives them is a parameter. Without the flag \<^verbatim>\<open>s\<close> the dot
  rejects line terminators; without the flag \<^verbatim>\<open>m\<close> the anchors are the two ends of
  the input.\<close>

definition is_line_terminator :: "code_unit \<Rightarrow> bool" where
  "is_line_terminator c = (c \<in> {10, 13, 8232, 8233})"

text \<open>\<open>ends canon r s i\<close> lists the end indices of the matches of \<open>r\<close> in \<open>s\<close> that
  start at \<open>i\<close>, in the order in which the backtracking matcher finds them. An iteration
  of a star or of an optional term that matches the empty string is rejected. A matcher
  from beyond the pattern language is given by this list; only ends between \<open>i\<close> and
  the end of the input count. (In the star, the bound \<open>e \<le> length s\<close> holds for every
  end, see \<open>ends_bounds\<close>; it is written out for the termination proof.)\<close>

function ends :: "(code_unit \<Rightarrow> code_unit) \<Rightarrow> regex \<Rightarrow> jstring \<Rightarrow> nat \<Rightarrow> nat list" where
  "ends canon Empty s i = [i]"
| "ends canon (Chr c) s i =
     (if i < length s \<and> canon (s ! i) = canon c then [Suc i] else [])"
| "ends canon AnyChar s i =
     (if i < length s \<and> \<not> is_line_terminator (s ! i) then [Suc i] else [])"
| "ends canon AssertStart s i = (if i = 0 then [i] else [])"
| "ends canon AssertEnd s i = (if i = length s then [i] else [])"
| "ends canon (Seq a b) s i = concat (map (ends canon b s) (ends canon a s i))"
| "ends canon (Alt a b) s i = ends canon a s i @ ends canon b s i"
| "ends canon (Star g a) s i =
     (let more = concat (map (ends canon (Star g a) s)
                   (filter (\<lambda>e. i < e \<and> e \<le> length s) (ends canon a s i)))
      in if g then more @ [i] else i # more)"
| "ends canon (Opt g a) s i =
     (let once = filter (\<lambda>e. e \<noteq> i) (ends canon a s i)
      in if g then once @ [i] else i # once)"
| "ends canon (Group a) s i = ends canon a s i"
| "ends canon (Foreign f) s i = filter (\<lambda>e. i \<le> e \<and> e \<le> length s) (f s i)"
  by pat_completeness auto
termination
  by (relation "measures [\<lambda>(canon, r, s, i). size r, \<lambda>(canon, r, s, i). length s - i]") auto

declare ends.simps(8) [simp del]

lemma ends_bounds:
  "e \<in> set (ends canon r s i) \<Longrightarrow> i \<le> e \<and> (i \<le> length s \<longrightarrow> e \<le> length s)"
proof (induction canon r s i arbitrary: e rule: ends.induct)
  case (6 canon a b s i)
  from "6.prems" obtain m where m: "m \<in> set (ends canon a s i)"
    and e: "e \<in> set (ends canon b s m)"
    by auto
  from "6.IH"(1) [OF m] "6.IH"(2) [OF m e] show ?case
    by auto
next
  case (8 canon g a s i)
  show ?case
  proof (cases "e = i")
    case True
    then show ?thesis by simp
  next
    case False
    from "8.prems" have "e \<in> set (concat (map (ends canon (Star g a) s)
        (filter (\<lambda>e. i < e \<and> e \<le> length s) (ends canon a s i)))) \<or> e = i"
      by (subst (asm) ends.simps(8)) (auto simp: Let_def split: if_splits)
    with False obtain m where m: "m \<in> set (ends canon a s i)" "i < m" "m \<le> length s"
      and e: "e \<in> set (ends canon (Star g a) s m)"
      by auto
    from "8.IH"(2) [of m e] m e show ?thesis
      by auto
  qed
qed (auto simp: Let_def split: if_splits)

text \<open>The search of \<^verbatim>\<open>RegExp.prototype.exec\<close>: the first index from \<open>i\<close> on at which
  the pattern matches, with the end of the match found first.\<close>

function exec_from ::
  "(code_unit \<Rightarrow> code_unit) \<Rightarrow> regex \<Rightarrow> jstring \<Rightarrow> nat \<Rightarrow> (nat \<times> nat) option" where
  "exec_from canon r s i =
     (if length s < i then None
      else (case ends canon r s i of
              [] \<Rightarrow> exec_from canon r s (Suc i)
            | e # _ \<Rightarrow> Some (i, e)))"
  by pat_completeness auto
termination
  by (relation "measure (\<lambda>(canon, r, s, i). Suc (length s) - i)") auto

declare exec_from.simps [simp del]

lemma exec_from_bounds:
  "exec_from canon r s i = Some (b, e) \<Longrightarrow>
     i \<le> b \<and> b \<le> e \<and> b \<le> length s \<and> e \<le> length s"
proof (induction canon r s i rule: exec_from.induct)
  case (1 canon r s i)
  from "1.prems" have le: "i \<le> length s"
    by (subst (asm) exec_from.simps) (simp split: if_splits)
  show ?case
  proof (cases "ends canon r s i")
    case Nil
    with "1.prems" le have "exec_from canon r s (Suc i) = Some (b, e)"
      by (subst (asm) exec_from.simps) simp
    with "1.IH" [OF _ Nil] le show ?thesis
      by simp
  next
    case (Cons e' es)
    then have "e' \<in> set (ends canon r s i)" by simp
    from ends_bounds [OF this] have "i \<le> e'" "e' \<le> length s"
      using le by simp_all
    moreover from "1.prems" le Cons have "b = i" "e = e'"
      by (subst (asm) exec_from.simps, simp)+
    ultimately show ?thesis
      using le by simp
  qed
qed

text \<open>\<^verbatim>\<open>regex.test(s)\<close> on a pattern with the flag \<^verbatim>\<open>g\<close> searches from the pattern's
  \<^verbatim>\<open>lastIndex\<close> and leaves there the end of the match, or 0 when there is none.\<close>

definition test_g ::
  "(code_unit \<Rightarrow> code_unit) \<Rightarrow> regex \<Rightarrow> jstring \<Rightarrow> nat \<Rightarrow> bool \<times> nat" where
  "test_g canon r s lastIndex =
     (case exec_from canon r s lastIndex of
        None \<Rightarrow> (False, 0)
      | Some (b, e) \<Rightarrow> (True, e))"

text \<open>\<^verbatim>\<open>s.match(regex)\<close> on a pattern with the flag \<^verbatim>\<open>g\<close>: all matches from the left,
  each search starting where the last match ended, one further after an empty match.
  The empty list stands for \<^verbatim>\<open>null\<close>.\<close>

function match_from ::
  "(code_unit \<Rightarrow> code_unit) \<Rightarrow> regex \<Rightarrow> jstring \<Rightarrow> nat \<Rightarrow> jstring list" where
  "match_from canon r s i =
     (case exec_from canon r s i of
        None \<Rightarrow> []
      | Some (b, e) \<Rightarrow> slice s b e # match_from canon r s (if e = b then Suc e else e))"
  by pat_completeness auto
termination
proof (relation "measure (\<lambda>(canon, r, s, i). Suc (length s) - i)", goal_cases)
  case 1
  show ?case by simp
next
  case (2 canon r s i x b e)
  from exec_from_bounds [of canon r s i b e] 2 show ?case
    by auto
qed

declare match_from.simps [simp del]

definition match_g :: "(code_unit \<Rightarrow> code_unit) \<Rightarrow> jstring \<Rightarrow> regex \<Rightarrow> jstring list" where
  "match_g canon s r = match_from canon r s 0"

section \<open>The runtime\<close>

text \<open>
  Three things that the program takes from the JavaScript runtime are parameters of the
  model: \<^verbatim>\<open>String.prototype.toLowerCase\<close>; the canonical form of a code unit, by which
  a pattern with the flag \<^verbatim>\<open>i\<close> compares; and the outcome of \<^verbatim>\<open>new RegExp\<close> on a
  pattern beyond the pattern language read above. A property proved for every runtime
  holds whatever these are.
\<close>

record runtime =
  lower_case :: "jstring \<Rightarrow> jstring"
  canonicalize :: "code_unit \<Rightarrow> code_unit"
  regexp_beyond :: "jstring \<Rightarrow> error + regex"

text \<open>
  The reference runtime, for the properties that are stated on given strings. Its
  \<open>toLowerCase\<close> is that of JavaScript on the code units below 256 (A..Z and the
  upper-case letters 0xC0..0xDE, the multiplication sign 0xD7 apart, move up by 32) and
  on U+0130, which becomes the two code units U+0069 U+0307; it leaves every other code
  unit as it is. Its \<open>Canonicalize\<close> is the upper-case form of the code units below 256
  (a..z and 0xE0..0xFE, the division sign 0xF7 apart, move down by 32; U+00B5 becomes
  U+039C and U+00FF becomes U+0178) and of the two small sigmas U+03C2 and U+03C3,
  which become U+03A3; it leaves every other code unit as it is.
\<close>

definition lower_units :: "code_unit \<Rightarrow> jstring" where
  "lower_units u =
     (if (65 \<le> u \<and> u \<le> 90) \<or> (192 \<le> u \<and> u \<le> 222 \<and> u \<noteq> 215) then [u + 32]
      else if u = 304 then [105, 775]
      else [u])"

definition toLowerCase :: "jstring \<Rightarrow> jstring" where
  "toLowerCase s = concat (map lower_units s)"

definition Canonicalize :: "code_unit \<Rightarrow> code_unit" where
  "Canonicalize u =
     (if (97 \<le> u \<and> u \<le> 122) \<or> (224 \<le> u \<and> u \<le> 254 \<and> u \<noteq> 247) then u - 32
      else if u = 181 then 924
      else if u = 255 then 376
      else if u = 962 \<or> u = 963 then 931
      else u)"

definition reference :: "(jstring \<Rightarrow> error + regex) \<Rightarrow> runtime" where
  "reference beyond =
     \<lparr>lower_case = toLowerCase, canonicalize = Canonicalize, regexp_beyond = beyond\<rparr>"

section \<open>Scoring\<close>

record video =
  title :: jstring
  description :: jstring
  transcript :: jstring
  transcriptAvailable :: bool

definition query_terms :: "jstring \<Rightarrow> jstring list" where
  "query_terms q = filter (\<lambda>t. 1 < length t) (split_ws q)"

text \<open>One round of the loop over the terms of \<^verbatim>\<open>scoreRelevance\<close>.\<close>

definition score_term ::
  "runtime \<Rightarrow> jstring \<Rightarrow> jstring \<Rightarrow> jstring \<Rightarrow> jstring \<Rightarrow> int \<Rightarrow> error + int" where
  "score_term J ttl txt desc term score =
     (let score1 = (if includes_str ttl term then score + 5 else score);
          score2 = (if includes_str desc term then score1 + 2 else score1)
      in case RegExp_gi (regexp_beyond J) term of
           Inl e \<Rightarrow> Inl e
         | Inr regex \<Rightarrow>
             (let matches = match_g (canonicalize J) txt regex
              in Inr (if matches \<noteq> [] then score2 + min (int (length matches)) 20
                      else score2)))"

fun score_terms ::
  "runtime \<Rightarrow> jstring \<Rightarrow> jstring \<Rightarrow> jstring \<Rightarrow> jstring list \<Rightarrow> int \<Rightarrow> error + int" where
  "score_terms J ttl txt desc [] score = Inr score"
| "score_terms J ttl txt desc (term # terms) score =
     (case score_term J ttl txt desc term score of
        Inl e \<Rightarrow> Inl e
      | Inr score' \<Rightarrow> score_terms J ttl txt desc terms score')"

definition scoreRelevance :: "runtime \<Rightarrow> 'a video_scheme \<Rightarrow> jstring \<Rightarrow> error + int" where
  "scoreRelevance J v query =
     (if query = [] then Inr 0
      else
        (let terms = query_terms (lower_case J query);
             ttl = lower_case J (title v);
             txt = lower_case J (transcript v);
             desc = lower_case J (description v)
         in case score_terms J ttl txt desc terms 0 of
              Inl e \<Rightarrow> Inl e
            | Inr score \<Rightarrow>
                (let score1 = (if includes_str txt (lower_case J query)
                               then score + 15 else score);
                     score2 = (if includes_str ttl (lower_case J query)
                               then score1 + 25 else score1)
                 in Inr score2)))"

section \<open>Excerpts\<close>

text \<open>Every caller takes the default \<^verbatim>\<open>maxLen = 350\<close>. The test
  \<^verbatim>\<open>lastSpace > maxLen * 0.7\<close> compares with the double 244.99999999999997 (the
  product of 350 and the double nearest to 0.7), so an index passes it from 245 on.\<close>

definition maxLen :: nat where
  "maxLen = 350"

definition step :: nat where
  "step = 30"

definition above_70_percent :: "int \<Rightarrow> bool" where
  "above_70_percent lastSpace = (245 \<le> lastSpace)"

definition ellipsis :: jstring where
  "ellipsis = [46, 46, 46]"

text \<open>The inner loop: the number of matches of all terms in one window.\<close>

fun window_score :: "runtime \<Rightarrow> jstring \<Rightarrow> jstring list \<Rightarrow> int \<Rightarrow> error + int" where
  "window_score J window [] s = Inr s"
| "window_score J window (term # terms) s =
     (case RegExp_gi (regexp_beyond J) term of
        Inl e \<Rightarrow> Inl e
      | Inr regex \<Rightarrow>
          (let matches = match_g (canonicalize J) window regex
           in window_score J window terms
                (if matches \<noteq> [] then s + int (length matches) else s)))"

text \<open>The outer loop \<^verbatim>\<open>for (let i = 0; i < lower.length - 100; i += step)\<close>, with the
  best position and its score so far; it returns the best position.\<close>

function scan_windows ::
  "runtime \<Rightarrow> jstring \<Rightarrow> jstring list \<Rightarrow> nat \<Rightarrow> nat \<Rightarrow> int \<Rightarrow> error + nat" where
  "scan_windows J lower terms i bestPos bestScore =
     (if int i < int (length lower) - 100 then
        (case window_score J (slice lower i (i + maxLen)) terms 0 of
           Inl e \<Rightarrow> Inl e
         | Inr s \<Rightarrow>
             if bestScore < s then scan_windows J lower terms (i + step) i s
             else scan_windows J lower terms (i + step) bestPos bestScore)
      else Inr bestPos)"
  by pat_completeness auto
termination
  by (relation "measure (\<lambda>(J, lower, terms, i, bestPos, bestScore). length lower - i)")
    (auto simp: step_def)

declare scan_windows.simps [simp del]

text \<open>The second half of \<^verbatim>\<open>extractExcerpt\<close>: the excerpt around the best position,
  moved to word boundaries, with its markers.\<close>

definition excerpt_at :: "jstring \<Rightarrow> nat \<Rightarrow> jstring" where
  "excerpt_at text bestPos =
     (let start = nat (max 0 (lastIndexOf text space bestPos + 1));
          excerpt = slice text start (start + maxLen);
          lastSpace = lastIndexOf excerpt space (length excerpt);
          excerpt' = (if above_70_percent lastSpace
                      then slice excerpt 0 (nat lastSpace) else excerpt);
          prefix = (if 0 < start then ellipsis else []);
          suffix = (if start + maxLen < length text then ellipsis else [])
      in prefix @ excerpt' @ suffix)"

definition extractExcerpt :: "runtime \<Rightarrow> jstring \<Rightarrow> jstring \<Rightarrow> error + jstring" where
  "extractExcerpt J text query =
     (if text = [] then Inr []
      else if query = [] then
        Inr (slice text 0 maxLen @ (if maxLen < length text then ellipsis else []))
      else
        (let lower = lower_case J text;
             terms = query_terms (lower_case J query)
         in case scan_windows J lower terms 0 0 0 of
              Inl e \<Rightarrow> Inl e
            | Inr bestPos \<Rightarrow> Inr (excerpt_at text bestPos)))"

section \<open>Highlighting\<close>

record span =
  span_text :: jstring
  highlight :: bool

text \<open>\<^verbatim>\<open>t.replace(/[.*+?^${}()|[\]\\]/g, '\\$&')\<close> puts a backslash before each of the
  fourteen syntax characters.\<close>

definition escape_term :: "jstring \<Rightarrow> jstring" where
  "escape_term t = concat (map (\<lambda>c. if is_syntax_char c then [backslash, c] else [c]) t)"

fun join_bar :: "jstring list \<Rightarrow> jstring" where
  "join_bar [] = []"
| "join_bar [t] = t"
| "join_bar (t # u # us) = t @ 124 # join_bar (u # us)"

text \<open>\<^verbatim>\<open>text.split(regex)\<close> for a pattern that is one capturing group around all of it, with
  no group inside: after each piece the capture, which is the whole match, is pushed.
  The search is sticky: at each index \<open>q\<close> the pattern is tried at \<open>q\<close> only. \<open>p\<close>
  is where the current piece starts.\<close>

function split_from ::
  "(code_unit \<Rightarrow> code_unit) \<Rightarrow> regex \<Rightarrow> jstring \<Rightarrow> nat \<Rightarrow> nat \<Rightarrow> jstring list" where
  "split_from canon r s p q =
     (if q < length s then
        (case ends canon r s q of
           [] \<Rightarrow> split_from canon r s p (Suc q)
         | e0 # _ \<Rightarrow>
             (let e = min e0 (length s)
              in if e = p then split_from canon r s p (Suc q)
                 else slice s p q # slice s q e0 # split_from canon r s e e))
      else [slice s p (length s)])"
  by pat_completeness auto
termination
proof (relation "measures [\<lambda>(canon, r, s, p, q). length s - q,
    \<lambda>(canon, r, s, p, q). if p = q then 0 else 1]", goal_cases)
  case 1
  show ?case by simp
next
  case (2 canon r s p q)
  then show ?case by auto
next
  case (3 canon r s p q e0 es e)
  then show ?case by auto
next
  case (4 canon r s p q e0 es e)
  then have "e0 \<in> set (ends canon r s q)" by simp
  from ends_bounds [OF this] 4 show ?case
    by (cases "e0 = q") auto
qed

declare split_from.simps [simp del]

definition split_regex :: "(code_unit \<Rightarrow> code_unit) \<Rightarrow> jstring \<Rightarrow> regex \<Rightarrow> jstring list" where
  "split_regex canon s r =
     (if s = [] then (if ends canon r s 0 \<noteq> [] then [] else [s])
      else split_from canon r s 0 0)"

text \<open>The callback of \<^verbatim>\<open>parts.map\<close>; the pattern's \<^verbatim>\<open>lastIndex\<close> goes from one call
  of \<^verbatim>\<open>regex.test\<close> to the next.\<close>

fun label_parts :: "runtime \<Rightarrow> regex \<Rightarrow> jstring list \<Rightarrow> nat \<Rightarrow> jstring list \<Rightarrow> span list" where
  "label_parts J regex terms lastIndex [] = []"
| "label_parts J regex terms lastIndex (part # parts) =
     (case test_g (canonicalize J) regex part lastIndex of
        (found, lastIndex') \<Rightarrow>
          \<lparr>span_text = part,
           highlight = (found \<or> list_ex (\<lambda>t. lower_case J part = lower_case J t) terms)\<rparr>
          # label_parts J regex terms lastIndex' parts)"

definition highlightTerms :: "runtime \<Rightarrow> jstring \<Rightarrow> jstring \<Rightarrow> error + span list" where
  "highlightTerms J text query =
     (if text = [] \<or> query = [] then Inr [\<lparr>span_text = text, highlight = False\<rparr>]
      else
        (let terms = query_terms query
         in if length terms = 0 then Inr [\<lparr>span_text = text, highlight = False\<rparr>]
            else
              (let pattern = join_bar (map escape_term terms)
               in case RegExp_gi (regexp_beyond J) (40 # pattern @ [41]) of
                    Inl e \<Rightarrow> Inl e
                  | Inr regex \<Rightarrow>
                      Inr (label_parts J regex terms 0
                             (split_regex (canonicalize J) text regex)))))"

section \<open>Keyword search\<close>

record scored_video = video +
  score :: int
  excerpt :: jstring

record page_state =
  results :: "scored_video list"
  searched :: bool
  aiAnswer :: jstring

definition videosWithTranscripts :: "video list option \<Rightarrow> video list" where
  "videosWithTranscripts database =
     (case database of None \<Rightarrow> [] | Some videos \<Rightarrow> filter transcriptAvailable videos)"

text \<open>The \<^verbatim>\<open>map\<close> of the pipeline: score and excerpt of every video, in order; the first
  error ends it.\<close>

fun score_all :: "runtime \<Rightarrow> video list \<Rightarrow> jstring \<Rightarrow> error + scored_video list" where
  "score_all J [] query = Inr []"
| "score_all J (v # vs) query =
     (case scoreRelevance J v query of
        Inl e \<Rightarrow> Inl e
      | Inr sc \<Rightarrow>
          (case extractExcerpt J (transcript v) query of
             Inl e \<Rightarrow> Inl e
           | Inr ex \<Rightarrow>
               (case score_all J vs query of
                  Inl e \<Rightarrow> Inl e
                | Inr rest \<Rightarrow>
                    Inr (\<lparr>title = title v, description = description v,
                          transcript = transcript v,
                          transcriptAvailable = transcriptAvailable v,
                          score = sc, excerpt = ex\<rparr> # rest))))"

text \<open>\<^verbatim>\<open>.filter(v => v.score > 0).sort((a, b) => b.score - a.score).slice(0, 25)\<close>; the
  sort is stable.\<close>

definition rank_scored :: "scored_video list \<Rightarrow> scored_video list" where
  "rank_scored scored =
     take 25 (sort_key (\<lambda>v. - score v) (filter (\<lambda>v. 0 < score v) scored))"

definition doKeywordSearch ::
  "runtime \<Rightarrow> video list option \<Rightarrow> jstring \<Rightarrow> page_state \<Rightarrow> error + page_state" where
  "doKeywordSearch J database query st =
     (if database = None \<or> trim_is_empty query then Inr st
      else
        (case score_all J (videosWithTranscripts database) query of
           Inl e \<Rightarrow> Inl e
         | Inr scored \<Rightarrow>
             Inr (st\<lparr>results := rank_scored scored, searched := True, aiAnswer := []\<rparr>)))"

section \<open>Literal terms and occurrences\<close>

text \<open>The notions in which the properties are stated. A term matches at the start of a
  text when the first code units of the text are those of the term, up to the canonical
  form. The occurrences of a term in a text are counted from the left, without overlap:
  after an occurrence the count goes on behind it.\<close>

definition matches_at :: "(code_unit \<Rightarrow> code_unit) \<Rightarrow> jstring \<Rightarrow> jstring \<Rightarrow> bool" where
  "matches_at canon t s = (map canon (take (length t) s) = map canon t)"

fun occurrences :: "(code_unit \<Rightarrow> code_unit) \<Rightarrow> jstring \<Rightarrow> jstring \<Rightarrow> nat" where
  "occurrences canon t [] = 0"
| "occurrences canon t (c # s) =
     (if matches_at canon t (c # s) then Suc (occurrences canon t (drop (length t - 1) s))
      else occurrences canon t s)"

text \<open>The patterns that a term without syntax characters, and an alternation of escaped
  terms in one group, are read as; the tokens of such an alternation; the ends of the
  matches of the terms at an index; a text in which no term matches anywhere; a text that
  is a term up to the canonical form; a text that is a term up to \<^verbatim>\<open>toLowerCase\<close>.\<close>

definition lit :: "jstring \<Rightarrow> regex" where
  "lit t = mk_seq (map Chr t)"

definition alt_lits :: "jstring list \<Rightarrow> regex" where
  "alt_lits ts = Seq (Group (mk_alt (map lit ts))) Empty"

fun alt_tokens :: "jstring list \<Rightarrow> token list" where
  "alt_tokens [] = []"
| "alt_tokens [t] = map TChar t"
| "alt_tokens (t # u # us) = map TChar t @ TBar # alt_tokens (u # us)"

definition term_ends ::
  "(code_unit \<Rightarrow> code_unit) \<Rightarrow> jstring list \<Rightarrow> jstring \<Rightarrow> nat \<Rightarrow> nat list" where
  "term_ends canon ts s i =
     concat (map (\<lambda>t. if matches_at canon t (drop i s) then [i + length t] else []) ts)"

definition quiet :: "(code_unit \<Rightarrow> code_unit) \<Rightarrow> jstring list \<Rightarrow> jstring \<Rightarrow> bool" where
  "quiet canon ts x = (\<forall>j. term_ends canon ts x j = [])"

definition folded_term :: "(code_unit \<Rightarrow> code_unit) \<Rightarrow> jstring list \<Rightarrow> jstring \<Rightarrow> bool" where
  "folded_term canon ts x = list_ex (\<lambda>t. map canon x = map canon t) ts"

definition lowered_term :: "runtime \<Rightarrow> jstring list \<Rightarrow> jstring \<Rightarrow> bool" where
  "lowered_term J ts x = list_ex (\<lambda>t. lower_case J x = lower_case J t) ts"

text \<open>The pieces of a split: a piece without a match, then a match and a piece without a
  match, any number of times.\<close>

fun alternating :: "(jstring \<Rightarrow> bool) \<Rightarrow> (jstring \<Rightarrow> bool) \<Rightarrow> jstring list \<Rightarrow> bool" where
  "alternating Q D [] = False"
| "alternating Q D [x] = Q x"
| "alternating Q D (x # d # rest) = (Q x \<and> D d \<and> alternating Q D rest)"

text \<open>A term is dotless when none of its code units has the canonical form of U+0130, of
  the letter i or of U+0307, the code units that the lower-cased form of U+0130 takes
  away or brings in.\<close>

definition dotless :: "jstring \<Rightarrow> bool" where
  "dotless t =
     list_all (\<lambda>c. Canonicalize c \<noteq> 73 \<and> Canonicalize c \<noteq> 304 \<and> Canonicalize c \<noteq> 775) t"

section \<open>Sample data\<close>

text \<open>The pattern \<^verbatim>\<open>[music]\<close> is beyond the pattern language read above. With the flags
  \<^verbatim>\<open>gi\<close> it matches one code unit whose canonical form is that of one of its five
  letters.\<close>

definition music_class :: "jstring \<Rightarrow> nat \<Rightarrow> nat list" where
  "music_class s i =
     (if i < length s \<and> Canonicalize (s ! i) \<in> set (map Canonicalize (js ''music''))
      then [i + 1] else [])"

text \<open>A runtime for the samples: the reference runtime, with the outcome of
  \<^verbatim>\<open>new RegExp\<close> on the pattern \<^verbatim>\<open>[music]\<close>; no other pattern beyond the pattern
  language is built in the samples.\<close>

definition sample_runtime :: runtime where
  "sample_runtime =
     reference (\<lambda>pattern. if pattern = js ''[music]'' then Inr (Foreign music_class)
                           else Inl SyntaxError)"

definition demo_videos :: "video list" where
  "demo_videos =
     [\<lparr>title = js ''Cooking'', description = [], transcript = js ''salt and pepper'',
        transcriptAvailable = True\<rparr>,
      \<lparr>title = js ''Pricing'', description = [], transcript = js ''pricing a saas'',
        transcriptAvailable = True\<rparr>,
      \<lparr>title = js ''SaaS pricing'', description = js ''saas'', transcript = js ''saas, saas'',
        transcriptAvailable = True\<rparr>,
      \<lparr>title = js ''Walking'', description = [], transcript = js ''left foot'',
        transcriptAvailable = True\<rparr>,
      \<lparr>title = js ''SaaS'', description = [], transcript = js ''saas'',
        transcriptAvailable = False\<rparr>]"

definition demo_state :: page_state where
  "demo_state = \<lparr>results = [], searched = False, aiAnswer = js ''old''\<rparr>"

definition example_video :: video where
  "example_video =
     \<lparr>title = js ''How I bootstrapped my SaaS to $1M'', description = [],
      transcript = js ''SaaS, SaaS: bootstrap. Bootstrap a SaaS, bootstrap, SAAS and saas.'',
      transcriptAvailable = True\<rparr>"

section \<open>Basic facts\<close>

lemma lastIndexOf_less: "lastIndexOf s c k < int (length s)"
  by (induction k) auto

lemma lastIndexOf_absent: "c \<notin> set s \<Longrightarrow> lastIndexOf s c k = - 1"
  by (induction k) auto

lemma scan_windows_short:
  "length lower \<le> 100 \<Longrightarrow> scan_windows J lower terms 0 bestPos bestScore = Inr bestPos"
  by (subst scan_windows.simps) simp

lemma slice_all: "length s \<le> b \<Longrightarrow> slice s 0 b = s"
  by (simp add: slice_def)

lemma excerpt_at_length: "length (excerpt_at text bestPos) \<le> 356"
proof -
  have body: "length (if c then slice (slice t a (a + maxLen)) 0 k else slice t a (a + maxLen)) \<le> 350"
    for c t a k
    by (auto simp: slice_def maxLen_def)
  have marker: "length (if c then ellipsis else []) \<le> 3" for c
    by (simp add: ellipsis_def)
  show ?thesis
    unfolding excerpt_at_def Let_def length_append
    by (intro order_trans [OF add_mono [OF marker add_mono [OF body marker]]]) simp
qed

lemma query_terms_nonempty: "\<forall>t \<in> set (query_terms q). t \<noteq> []"
  by (auto simp: query_terms_def)

lemma matches_at_Nil: "matches_at canon [] s"
  by (simp add: matches_at_def)

lemma matches_at_Cons:
  "matches_at canon (c # t) s =
     (s \<noteq> [] \<and> canon (hd s) = canon c \<and> matches_at canon t (tl s))"
  by (cases s) (auto simp: matches_at_def)

lemma matches_at_short: "t \<noteq> [] \<Longrightarrow> length s < length t \<Longrightarrow> \<not> matches_at canon t s"
proof
  assume "t \<noteq> []" "length s < length t" "matches_at canon t s"
  then have "length (map canon (take (length t) s)) = length (map canon t)"
    by (simp add: matches_at_def)
  with \<open>length s < length t\<close> show False
    by simp
qed

lemma matches_at_take:
  assumes "t \<noteq> []" and "matches_at canon t (drop j (take n y))"
  shows "matches_at canon t (drop j y) \<and> j + length t \<le> n"
proof -
  from matches_at_short [OF assms(1), of "drop j (take n y)"] assms(2)
  have len: "length t \<le> min (length y) n - j"
    by (cases "length (drop j (take n y)) < length t") auto
  then have n: "j + length t \<le> n"
    using assms(1) by (cases t) auto
  have "take (length t) (drop j (take n y)) = take (length t) (drop j y)"
    using n by (simp add: drop_take min_def)
  with assms(2) n show ?thesis
    by (simp add: matches_at_def)
qed

lemma matches_at_whole: "t \<noteq> [] \<Longrightarrow> map canon x = map canon t \<Longrightarrow> matches_at canon t x"
proof -
  assume "map canon x = map canon t"
  moreover from this have "length x = length t"
    by (metis length_map)
  ultimately show ?thesis
    by (simp add: matches_at_def)
qed

section \<open>Patterns of plain and of escaped terms\<close>

lemma ends_lit:
  "ends canon (lit t) s i = (if matches_at canon t (drop i s) then [i + length t] else [])"
proof (induction t arbitrary: i)
  case Nil
  then show ?case by (simp add: lit_def matches_at_Nil)
next
  case (Cons c t)
  have tl: "tl (drop i s) = drop (Suc i) s"
    by (simp add: drop_Suc tl_drop)
  have hd: "i < length s \<Longrightarrow> hd (drop i s) = s ! i"
    by (simp add: hd_drop_conv_nth)
  from Cons [of "Suc i"] show ?case
    by (auto simp: lit_def matches_at_Cons tl hd)
qed

lemma not_syntax_tokens:
  "\<not> is_syntax_char c \<Longrightarrow>
     tokens (c # cs) = (case tokens cs of Inl e \<Rightarrow> Inl e | Inr ts \<Rightarrow> Inr (TChar c # ts))"
  by (auto simp: is_syntax_char_def quant_of_def backslash_def)

lemma escaped_tokens:
  "is_syntax_char c \<Longrightarrow>
     tokens (backslash # c # cs) = (case tokens cs of Inl e \<Rightarrow> Inl e | Inr ts \<Rightarrow> Inr (TChar c # ts))"
  by simp

lemma tokens_escape_term:
  "tokens (escape_term t @ rest) =
     (case tokens rest of Inl e \<Rightarrow> Inl e | Inr ts \<Rightarrow> Inr (map TChar t @ ts))"
proof (induction t)
  case Nil
  then show ?case by (simp add: escape_term_def split: sum.splits)
next
  case (Cons c t)
  then show ?case
    by (cases "is_syntax_char c")
      (simp_all add: escape_term_def not_syntax_tokens escaped_tokens del: tokens.simps(2) split: sum.splits)
qed

lemma tokens_plain:
  "\<forall>c \<in> set t. \<not> is_syntax_char c \<Longrightarrow> tokens t = Inr (map TChar t)"
  by (induction t) (simp_all add: not_syntax_tokens del: tokens.simps(2))

lemma parse_chars:
  "t \<noteq> [] \<Longrightarrow> parse (map TChar t @ rest) ((alts, sq), stk, q) =
     parse rest ((alts, rev (map Chr t) @ sq), stk, True)"
proof (induction t arbitrary: sq q)
  case Nil
  then show ?case by simp
next
  case (Cons c t)
  then show ?case
    by (cases "t = []") simp_all
qed

lemma RegExp_gi_plain:
  assumes "t \<noteq> []" and "\<forall>c \<in> set t. \<not> is_syntax_char c"
  shows "RegExp_gi beyond t = Inr (lit t)"
  using parse_chars [OF assms(1), of "[]" "[]" "[]" "[]" False]
  by (simp add: RegExp_gi_def tokens_plain [OF assms(2)] close_frame_def lit_def rev_map)

lemma tokens_bar:
  "tokens (124 # cs) = (case tokens cs of Inl e \<Rightarrow> Inl e | Inr ts \<Rightarrow> Inr (TBar # ts))"
  by (simp add: backslash_def)

lemma tokens_close: "tokens [41] = Inr [TRParen]"
  by (simp add: backslash_def)

lemma tokens_join_bar:
  "tokens (join_bar (map escape_term ts) @ rest) =
     (case tokens rest of Inl e \<Rightarrow> Inl e | Inr r \<Rightarrow> Inr (alt_tokens ts @ r))"
proof (induction ts rule: alt_tokens.induct)
  case 1
  then show ?case by (simp split: sum.splits)
next
  case (2 t)
  then show ?case by (simp add: tokens_escape_term split: sum.splits)
next
  case (3 t u us)
  then show ?case
    by (simp add: tokens_escape_term tokens_bar del: tokens.simps(2) split: sum.splits)
qed

lemma escape_term_head:
  "t \<noteq> [] \<Longrightarrow> \<exists>d ds. escape_term t = d # ds \<and> d \<noteq> 63"
  by (cases t) (auto simp: escape_term_def is_syntax_char_def backslash_def)

lemma tokens_open:
  "d \<noteq> 63 \<Longrightarrow>
     tokens (40 # d # ds) =
       (case tokens (d # ds) of Inl e \<Rightarrow> Inl e | Inr ts \<Rightarrow> Inr (TLParen # ts))"
  by (simp add: backslash_def)

lemma tokens_pattern:
  assumes "ts \<noteq> []" and "\<forall>t \<in> set ts. t \<noteq> []"
  shows "tokens (40 # join_bar (map escape_term ts) @ [41]) =
     Inr (TLParen # alt_tokens ts @ [TRParen])"
proof -
  from assms obtain t us where ts: "ts = t # us" and t: "t \<noteq> []"
    by (cases ts) auto
  from escape_term_head [OF t] obtain d ds where d: "escape_term t = d # ds" "d \<noteq> 63"
    by blast
  have "\<exists>ds'. join_bar (map escape_term ts) @ [41] = d # ds'"
    unfolding ts using d(1) by (cases us) simp_all
  then obtain ds' where j: "join_bar (map escape_term ts) @ [41] = d # ds'"
    by blast
  have "tokens (join_bar (map escape_term ts) @ [41]) = Inr (alt_tokens ts @ [TRParen])"
    by (simp add: tokens_join_bar tokens_close del: tokens.simps(2))
  then show ?thesis
    using tokens_open [OF d(2), of ds'] by (simp add: j del: tokens.simps(2))
qed

lemma parse_alts:
  assumes "ts \<noteq> []" and "\<forall>t \<in> set ts. t \<noteq> []"
  shows "parse (alt_tokens ts @ rest) ((alts, []), stk, q) =
     parse rest ((rev (map lit (butlast ts)) @ alts, rev (map Chr (last ts))), stk, True)"
  using assms
proof (induction ts arbitrary: alts q rule: alt_tokens.induct)
  case 1
  then show ?case by simp
next
  case (2 t)
  then show ?case
    using parse_chars [of t rest alts "[]" stk q] by simp
next
  case (3 t u us)
  from 3(3) have t: "t \<noteq> []" by simp
  have "parse (alt_tokens (t # u # us) @ rest) ((alts, []), stk, q) =
      parse (TBar # alt_tokens (u # us) @ rest) ((alts, rev (map Chr t)), stk, True)"
    using parse_chars [OF t, of "TBar # alt_tokens (u # us) @ rest" alts "[]" stk q] by simp
  also have "\<dots> = parse (alt_tokens (u # us) @ rest) ((lit t # alts, []), stk, False)"
    by (simp add: lit_def)
  also have "\<dots> = parse rest ((rev (map lit (butlast (u # us))) @ lit t # alts,
      rev (map Chr (last (u # us)))), stk, True)"
    using 3 by simp
  finally show ?case
    by simp
qed

lemma RegExp_gi_pattern:
  assumes "ts \<noteq> []" and "\<forall>t \<in> set ts. t \<noteq> []"
  shows "RegExp_gi beyond (40 # join_bar (map escape_term ts) @ [41]) = Inr (alt_lits ts)"
proof -
  have "map lit (butlast ts) @ [lit (last ts)] = map lit ts"
    using assms(1) by (metis append_butlast_last_id list.simps(8,9) map_append)
  then have "close_frame (rev (map lit (butlast ts)), rev (map Chr (last ts))) = mk_alt (map lit ts)"
    by (simp add: close_frame_def lit_def)
  then show ?thesis
    using parse_alts [OF assms, of "[TRParen]" "[]" "[([], [])]" False]
    by (simp add: RegExp_gi_def tokens_pattern [OF assms] close_frame_def alt_lits_def
        del: tokens.simps(2))
qed

lemma ends_mk_alt_lits:
  "ts \<noteq> [] \<Longrightarrow> ends canon (mk_alt (map lit ts)) s i = term_ends canon ts s i"
  by (induction ts rule: alt_tokens.induct) (simp_all add: term_ends_def ends_lit)

lemma concat_ends_Empty: "concat (map (ends canon Empty s) xs) = xs"
  by (induction xs) simp_all

lemma ends_Seq_Empty: "ends canon (Seq a Empty) s i = ends canon a s i"
  by (simp add: concat_ends_Empty)

lemma ends_alt_lits: "ts \<noteq> [] \<Longrightarrow> ends canon (alt_lits ts) s i = term_ends canon ts s i"
  by (simp add: alt_lits_def ends_mk_alt_lits ends_Seq_Empty del: ends.simps(6))

lemma term_ends_empty:
  "(term_ends canon ts s i = []) = (\<forall>t \<in> set ts. \<not> matches_at canon t (drop i s))"
  by (auto simp: term_ends_def)

lemma term_ends_member:
  "e \<in> set (term_ends canon ts s i) \<Longrightarrow>
     \<exists>t \<in> set ts. matches_at canon t (drop i s) \<and> e = i + length t"
  by (auto simp: term_ends_def split: if_splits)

section \<open>Counting matches of a plain term\<close>

lemma exec_from_lit:
  "exec_from canon (lit t) s i =
     (if length s < i then None
      else if matches_at canon t (drop i s) then Some (i, i + length t)
      else exec_from canon (lit t) s (Suc i))"
  by (subst exec_from.simps) (simp add: ends_lit)

lemma match_from_lit_length:
  assumes "t \<noteq> []"
  shows "length (match_from canon (lit t) s i) = occurrences canon t (drop i s)"
proof (induction "Suc (length s) - i" arbitrary: i rule: less_induct)
  case less
  show ?case
  proof (cases "i < length s")
    case False
    then have none: "\<not> matches_at canon t (drop i s)"
      using matches_at_short [OF assms, of "drop i s"] assms by simp
    have "exec_from canon (lit t) s i = None"
    proof (cases "length s < i")
      case True
      then show ?thesis by (subst exec_from_lit) simp
    next
      case False
      with \<open>\<not> i < length s\<close> have "i = length s" by simp
      then show ?thesis
        using none by (subst exec_from_lit, simp, subst exec_from_lit, simp)
    qed
    with False show ?thesis
      by (subst match_from.simps) simp
  next
    case True
    then have d: "drop i s = s ! i # drop (Suc i) s"
      by (simp add: Cons_nth_drop_Suc)
    show ?thesis
    proof (cases "matches_at canon t (drop i s)")
      case True
      with \<open>i < length s\<close> have ex: "exec_from canon (lit t) s i = Some (i, i + length t)"
        by (subst exec_from_lit) simp
      from matches_at_short [OF assms, of "drop i s"] True \<open>i < length s\<close>
      have le: "i + length t \<le> length s"
        by (cases "length (drop i s) < length t") auto
      from assms have pos: "0 < length t" by simp
      have "length (match_from canon (lit t) s i) =
          Suc (length (match_from canon (lit t) s (i + length t)))"
        using ex pos by (subst match_from.simps) simp
      also have "length (match_from canon (lit t) s (i + length t)) =
          occurrences canon t (drop (i + length t) s)"
        using pos le \<open>i < length s\<close> by (intro less) linarith
      also have "i + length t = (length t - 1) + Suc i"
        using pos by linarith
      also have "drop (length t - 1 + Suc i) s = drop (length t - 1) (drop (Suc i) s)"
        by (simp only: drop_drop)
      finally show ?thesis
        using True by (simp add: d)
    next
      case False
      with \<open>i < length s\<close>
      have ex: "exec_from canon (lit t) s i = exec_from canon (lit t) s (Suc i)"
        by (subst exec_from_lit) simp
      have "match_from canon (lit t) s i = match_from canon (lit t) s (Suc i)"
        by (subst match_from.simps, subst (2) match_from.simps) (simp add: ex)
      moreover have "length (match_from canon (lit t) s (Suc i)) =
          occurrences canon t (drop (Suc i) s)"
        using \<open>i < length s\<close> by (intro less) simp
      ultimately show ?thesis
        using False by (simp add: d)
    qed
  qed
qed

lemma score_term_plain:
  assumes "t \<noteq> []" and "\<forall>c \<in> set t. \<not> is_syntax_char c"
  shows "score_term J ttl s desc t sc =
     Inr (sc + (if includes_str ttl t then 5 else 0) + (if includes_str desc t then 2 else 0)
          + min (int (occurrences (canonicalize J) t s)) 20)"
  using match_from_lit_length [OF assms(1), of "canonicalize J" s 0]
  by (auto simp: score_term_def RegExp_gi_plain [OF assms] match_g_def Let_def)

lemma score_term_cap:
  assumes "RegExp_gi (regexp_beyond J) term = Inr regex"
    and "20 \<le> length (match_g (canonicalize J) s regex)"
  shows "score_term J ttl s desc term sc =
     Inr (sc + (if includes_str ttl term then 5 else 0) + (if includes_str desc term then 2 else 0)
          + 20)"
  using assms by (auto simp: score_term_def Let_def)

section \<open>Splitting and labelling\<close>

lemma slices_append:
  "p \<le> q \<Longrightarrow> q \<le> e \<Longrightarrow> slice s p q @ slice s q e @ drop e s = drop p s"
proof -
  assume pq: "p \<le> q" and qe: "q \<le> e"
  have "take (e - q) (drop q s) @ drop e s = drop q s"
    using qe by (metis append_take_drop_id drop_drop le_add_diff_inverse2)
  moreover have "take (q - p) (drop p s) @ drop q s = drop p s"
    using pq by (metis append_take_drop_id drop_drop le_add_diff_inverse2)
  ultimately show ?thesis
    by (simp add: slice_def)
qed

lemma split_from_concat:
  "p \<le> q \<Longrightarrow> q \<le> length s \<Longrightarrow> concat (split_from canon r s p q) = drop p s"
proof (induction canon r s p q rule: split_from.induct)
  case (1 canon r s p q)
  show ?case
  proof (cases "q < length s")
    case False
    with "1.prems" show ?thesis
      by (subst split_from.simps) (simp add: slice_def)
  next
    case True
    show ?thesis
    proof (cases "ends canon r s q")
      case Nil
      with True "1.IH"(1) "1.prems" show ?thesis
        by (subst split_from.simps) simp
    next
      case (Cons e0 es)
      then have "e0 \<in> set (ends canon r s q)" by simp
      from ends_bounds [OF this] True have e0: "q \<le> e0" "e0 \<le> length s"
        by simp_all
      then have m: "min e0 (length s) = e0" by simp
      show ?thesis
      proof (cases "e0 = p")
        case True
        with \<open>q < length s\<close> Cons m "1.IH"(2) [OF \<open>q < length s\<close> Cons] "1.prems" show ?thesis
          by (subst split_from.simps) simp
      next
        case False
        with \<open>q < length s\<close> Cons m "1.IH"(3) [OF \<open>q < length s\<close> Cons] e0
        have "concat (split_from canon r s e0 e0) = drop e0 s"
          by simp
        with False \<open>q < length s\<close> Cons m show ?thesis
          using slices_append [OF "1.prems"(1) e0(1), of s]
          by (subst split_from.simps) simp
      qed
    qed
  qed
qed

lemma label_parts_texts: "map span_text (label_parts J r ts li parts) = parts"
  by (induction parts arbitrary: li) (simp_all split: prod.splits)

lemma quiet_between:
  assumes "\<forall>t \<in> set ts. t \<noteq> []"
    and "\<forall>j. p \<le> j \<and> j < q \<longrightarrow> term_ends canon ts s j = []"
  shows "quiet canon ts (slice s p q)"
  unfolding quiet_def term_ends_empty
proof (intro allI ballI notI)
  fix j t
  assume t: "t \<in> set ts" and m: "matches_at canon t (drop j (slice s p q))"
  from assms(1) t have "t \<noteq> []" by simp
  from matches_at_take [OF this, of canon j "q - p" "drop p s"] m
  have "matches_at canon t (drop (p + j) s)" and "j + length t \<le> q - p"
    by (simp_all add: slice_def add.commute)
  moreover from \<open>t \<noteq> []\<close> have "0 < length t" by simp
  ultimately have "p \<le> p + j \<and> p + j < q" "matches_at canon t (drop (p + j) s)"
    by linarith+
  with assms(2) t show False
    by (auto simp: term_ends_empty)
qed

lemma quiet_not_folded:
  assumes "\<forall>t \<in> set ts. t \<noteq> []" and "quiet canon ts x"
  shows "\<not> folded_term canon ts x"
proof
  assume "folded_term canon ts x"
  then obtain t where t: "t \<in> set ts" "map canon x = map canon t"
    by (auto simp: folded_term_def list_ex_iff)
  with assms(1) have "matches_at canon t (drop 0 x)"
    by (simp add: matches_at_whole)
  moreover from assms(2) t(1) have "\<not> matches_at canon t (drop 0 x)"
    unfolding quiet_def term_ends_empty by blast
  ultimately show False
    by simp
qed

lemma split_from_alternating:
  assumes "ts \<noteq> []" and "\<forall>t \<in> set ts. t \<noteq> []"
  shows "p \<le> q \<Longrightarrow> q \<le> length s \<Longrightarrow>
     \<forall>j. p \<le> j \<and> j < q \<longrightarrow> term_ends canon ts s j = [] \<Longrightarrow>
     alternating (quiet canon ts) (folded_term canon ts) (split_from canon (alt_lits ts) s p q)"
proof (induction canon "alt_lits ts" s p q rule: split_from.induct)
  case (1 canon s p q)
  show ?case
  proof (cases "q < length s")
    case False
    with "1.prems" have "q = length s" by simp
    with "1.prems" quiet_between [OF assms(2), of p q canon s] show ?thesis
      by (subst split_from.simps) simp
  next
    case True
    show ?thesis
    proof (cases "term_ends canon ts s q")
      case Nil
      with "1.prems" have "\<forall>j. p \<le> j \<and> j < Suc q \<longrightarrow> term_ends canon ts s j = []"
        by (auto simp: less_Suc_eq)
      with True Nil "1.hyps"(1) "1.prems" show ?thesis
        by (subst split_from.simps) (simp add: ends_alt_lits [OF assms(1)])
    next
      case (Cons e0 es)
      then have "e0 \<in> set (term_ends canon ts s q)" by simp
      from term_ends_member [OF this] obtain t where t: "t \<in> set ts"
        "matches_at canon t (drop q s)" "e0 = q + length t"
        by blast
      from assms(2) t(1) have "t \<noteq> []" by simp
      from matches_at_short [OF this, of "drop q s"] t(2) have "length t \<le> length s - q"
        by (cases "length (drop q s) < length t") auto
      with True t(3) \<open>t \<noteq> []\<close> have e0: "q < e0" "e0 \<le> length s"
        by simp_all
      then have m: "min e0 (length s) = e0" "e0 \<noteq> p"
        using "1.prems"(1) by simp_all
      have delim: "folded_term canon ts (slice s q e0)"
        using t by (auto simp: folded_term_def list_ex_iff slice_def matches_at_def)
      have before: "quiet canon ts (slice s p q)"
        by (rule quiet_between [OF assms(2) "1.prems"(3)])
      have "\<forall>j. e0 \<le> j \<and> j < e0 \<longrightarrow> term_ends canon ts s j = []"
        by auto
      then have rest: "alternating (quiet canon ts) (folded_term canon ts)
          (split_from canon (alt_lits ts) s e0 e0)"
        using "1.hyps"(3) [of e0 es e0] True Cons m e0
        by (simp add: ends_alt_lits [OF assms(1)])
      from True Cons m delim before rest show ?thesis
        by (subst split_from.simps) (simp add: ends_alt_lits [OF assms(1)])
    qed
  qed
qed

lemma exec_from_nonempty:
  "exec_from canon r s i = Some (b, e) \<Longrightarrow> ends canon r s b \<noteq> []"
proof (induction canon r s i rule: exec_from.induct)
  case (1 canon r s i)
  from "1.prems" have le: "\<not> length s < i"
    by (subst (asm) exec_from.simps) (simp split: if_splits)
  show ?case
  proof (cases "ends canon r s i")
    case Nil
    with "1.prems" le have "exec_from canon r s (Suc i) = Some (b, e)"
      by (subst (asm) exec_from.simps) simp
    with "1.IH" [OF le Nil] show ?thesis
      by simp
  next
    case (Cons e' es)
    with "1.prems" le have "b = i"
      by (subst (asm) exec_from.simps) simp
    with Cons show ?thesis by simp
  qed
qed

lemma test_g_quiet:
  assumes "ts \<noteq> []" and "quiet canon ts x"
  shows "test_g canon (alt_lits ts) x li = (False, 0)"
proof (cases "exec_from canon (alt_lits ts) x li")
  case None
  then show ?thesis by (simp add: test_g_def)
next
  case (Some be)
  then obtain b e where "exec_from canon (alt_lits ts) x li = Some (b, e)"
    by (cases be) simp
  from exec_from_nonempty [OF this] assms show ?thesis
    by (simp add: ends_alt_lits quiet_def)
qed

lemma test_g_folded:
  assumes "ts \<noteq> []" and "\<forall>t \<in> set ts. t \<noteq> []" and "folded_term canon ts x"
  shows "fst (test_g canon (alt_lits ts) x 0)"
proof -
  from assms(3) obtain t where t: "t \<in> set ts" "map canon x = map canon t"
    by (auto simp: folded_term_def list_ex_iff)
  with assms(2) have "matches_at canon t (drop 0 x)"
    by (simp add: matches_at_whole)
  with t(1) have "term_ends canon ts x 0 \<noteq> []"
    by (auto simp: term_ends_empty)
  then obtain e es where "ends canon (alt_lits ts) x 0 = e # es"
    by (cases "ends canon (alt_lits ts) x 0") (simp_all add: ends_alt_lits [OF assms(1)])
  then have "exec_from canon (alt_lits ts) x 0 = Some (0, e)"
    by (subst exec_from.simps) simp
  then show ?thesis
    by (simp add: test_g_def)
qed

lemma label_parts_highlight:
  assumes "ts \<noteq> []" and "\<forall>t \<in> set ts. t \<noteq> []"
  shows "alternating (quiet (canonicalize J) ts) (folded_term (canonicalize J) ts) parts \<Longrightarrow>
     \<forall>sp \<in> set (label_parts J (alt_lits ts) ts li parts).
        highlight sp =
          (folded_term (canonicalize J) ts (span_text sp) \<or> lowered_term J ts (span_text sp))"
proof (induction "quiet (canonicalize J) ts" "folded_term (canonicalize J) ts" parts
    arbitrary: li rule: alternating.induct)
  case 1
  then show ?case by simp
next
  case (2 x)
  then have q: "quiet (canonicalize J) ts x" by simp
  from test_g_quiet [OF assms(1) q] quiet_not_folded [OF assms(2) q] show ?case
    by (simp add: lowered_term_def)
next
  case (3 x d rest)
  then have q: "quiet (canonicalize J) ts x" and f: "folded_term (canonicalize J) ts d"
    and rest: "alternating (quiet (canonicalize J) ts) (folded_term (canonicalize J) ts) rest"
    by simp_all
  obtain found e where tg: "test_g (canonicalize J) (alt_lits ts) d 0 = (found, e)"
    by (cases "test_g (canonicalize J) (alt_lits ts) d 0") simp
  with test_g_folded [OF assms f] have found by simp
  with tg test_g_quiet [OF assms(1) q] quiet_not_folded [OF assms(2) q] f "3.hyps" [OF rest, of e]
  show ?case
    by (simp add: lowered_term_def)
qed

lemma highlightTerms_pattern:
  assumes "text \<noteq> []" and "query \<noteq> []" and "query_terms query \<noteq> []"
  shows "highlightTerms J text query =
     Inr (label_parts J (alt_lits (query_terms query)) (query_terms query) 0
            (split_from (canonicalize J) (alt_lits (query_terms query)) text 0 0))"
  using assms
  by (simp add: highlightTerms_def Let_def split_regex_def
      RegExp_gi_pattern [OF assms(3) query_terms_nonempty])

section \<open>Ranking\<close>

lemma score_all_scores:
  "score_all J vs query = Inr scored \<Longrightarrow>
     \<forall>r \<in> set scored. scoreRelevance J r query = Inr (score r)"
proof (induction vs arbitrary: scored)
  case Nil
  then show ?case by simp
next
  case (Cons v vs)
  then show ?case
    by (auto simp: scoreRelevance_def split: sum.splits)
qed

lemma rank_scored_set: "set (rank_scored scored) \<subseteq> {v \<in> set scored. 0 < score v}"
  unfolding rank_scored_def using set_take_subset [of 25] by fastforce

lemma rank_scored_length: "length (rank_scored scored) \<le> 25"
  by (simp add: rank_scored_def)

lemma rank_scored_sorted: "sorted_wrt (\<lambda>a b. score b \<le> score a) (rank_scored scored)"
proof -
  have "sorted (map (\<lambda>v. - score v) (sort_key (\<lambda>v. - score v) (filter (\<lambda>v. 0 < score v) scored)))"
    by (rule sorted_sort_key)
  then have "sorted_wrt (\<lambda>a b. score b \<le> score a) (sort_key (\<lambda>v. - score v) (filter (\<lambda>v. 0 < score v) scored))"
    by (simp add: sorted_wrt_map)
  then show ?thesis
    unfolding rank_scored_def by (rule sorted_wrt_take)
qed

section \<open>Scores of plain terms under appended text\<close>

text \<open>When no term of the query has a syntax character, every term is matched as
  literal text, and text appended to the transcript never lowers the score. A term with
  20 matches or more adds 20 for them, however many they are.\<close>

lemma occurrences_short: "length s < length t \<Longrightarrow> occurrences canon t s = 0"
proof (induction s)
  case Nil
  then show ?case by simp
next
  case (Cons c s)
  then have "t \<noteq> []" by auto
  from matches_at_short [OF this Cons.prems] Cons show ?case
    by simp
qed

lemma matches_at_append: "matches_at canon t s \<Longrightarrow> matches_at canon t (s @ x)"
proof (cases "t = []")
  case True
  then show ?thesis by (simp add: matches_at_def)
next
  case False
  assume m: "matches_at canon t s"
  with matches_at_short [OF False, of s] have "length t \<le> length s"
    by (cases "length s < length t") auto
  with m show ?thesis
    by (simp add: matches_at_def)
qed

lemma occurrences_append:
  "t \<noteq> [] \<Longrightarrow> occurrences canon t s \<le> occurrences canon t (s @ x)"
proof (induction canon t s rule: occurrences.induct)
  case (1 canon t)
  then show ?case by simp
next
  case (2 canon t c s)
  show ?case
  proof (cases "matches_at canon t (c # s)")
    case True
    with matches_at_short [OF "2.prems", of "c # s"] have len: "length t \<le> Suc (length s)"
      by (cases "length (c # s) < length t") auto
    then have "drop (length t - 1) (s @ x) = drop (length t - 1) s @ x"
      by simp
    with True matches_at_append [OF True, of x] "2.IH"(1) "2.prems" show ?thesis
      by simp
  next
    case False
    show ?thesis
    proof (cases "matches_at canon t ((c # s) @ x)")
      case True
      have "length s < length t"
      proof (rule ccontr)
        assume "\<not> length s < length t"
        then have "length t - length (c # s) = 0"
          by simp
        then have "take (length t) ((c # s) @ x) = take (length t) (c # s)"
          by (simp only: take_append take_0 append_Nil2)
        with True False show False
          by (simp add: matches_at_def)
      qed
      with False True show ?thesis
        by (simp add: occurrences_short)
    next
      case m: False
      with False "2.IH"(2) "2.prems" show ?thesis
        by simp
    qed
  qed
qed

lemma starts_with_append: "starts_with s t \<Longrightarrow> starts_with (s @ x) t"
  by (induction s t rule: starts_with.induct) simp_all

lemma includes_str_append: "includes_str s t \<Longrightarrow> includes_str (s @ x) t"
proof (induction s)
  case Nil
  then show ?case by (cases x) simp_all
next
  case (Cons c s)
  then show ?case
    using starts_with_append [of "c # s" t x] by auto
qed

lemma score_terms_plain_mono:
  assumes "\<forall>t \<in> set ts. t \<noteq> [] \<and> (\<forall>c \<in> set t. \<not> is_syntax_char c)"
  shows "sc \<le> sc' \<Longrightarrow>
     \<exists>n m. score_terms J ttl s desc ts sc = Inr n \<and> score_terms J ttl (s @ x) desc ts sc' = Inr m
        \<and> n \<le> m"
  using assms
proof (induction ts arbitrary: sc sc')
  case Nil
  then show ?case by simp
next
  case (Cons t ts)
  then have t: "t \<noteq> []" "\<forall>c \<in> set t. \<not> is_syntax_char c"
    by simp_all
  let ?a = "(if includes_str ttl t then 5 else 0) + (if includes_str desc t then 2 else (0::int))"
  have "sc + ?a + min (int (occurrences (canonicalize J) t s)) 20
      \<le> sc' + ?a + min (int (occurrences (canonicalize J) t (s @ x))) 20"
    using Cons.prems(1) occurrences_append [OF t(1), of "canonicalize J" s x] by simp
  from Cons.IH [OF this] Cons.prems(2) show ?case
    by (simp add: score_term_plain [OF t] add.assoc)
qed

text \<open>The transcript is lower-cased before it is searched: the lemma is for the
  appended texts with which the lower-cased transcript goes on as it was.\<close>

lemma scoreRelevance_plain_mono:
  assumes "\<forall>t \<in> set (query_terms (lower_case J q)). \<forall>c \<in> set t. \<not> is_syntax_char c"
    and "lower_case J (transcript v @ x) = lower_case J (transcript v) @ y"
  shows "\<exists>n m. scoreRelevance J v q = Inr n
     \<and> scoreRelevance J (v\<lparr>transcript := transcript v @ x\<rparr>) q = Inr m \<and> n \<le> m"
proof (cases "q = []")
  case True
  then show ?thesis by (simp add: scoreRelevance_def)
next
  case False
  have ts: "\<forall>t \<in> set (query_terms (lower_case J q)).
      t \<noteq> [] \<and> (\<forall>c \<in> set t. \<not> is_syntax_char c)"
    using assms(1) query_terms_nonempty by blast
  from score_terms_plain_mono [OF ts, where sc = 0 and sc' = 0 and ttl = "lower_case J (title v)"
      and s = "lower_case J (transcript v)" and x = y
      and desc = "lower_case J (description v)" and J = J]
  obtain n m where nm:
    "score_terms J (lower_case J (title v)) (lower_case J (transcript v))
       (lower_case J (description v)) (query_terms (lower_case J q)) 0 = Inr n"
    "score_terms J (lower_case J (title v)) (lower_case J (transcript v) @ y)
       (lower_case J (description v)) (query_terms (lower_case J q)) 0 = Inr m"
    "n \<le> m"
    by auto
  from False nm includes_str_append [of "lower_case J (transcript v)" "lower_case J q" y]
  show ?thesis
    by (auto simp: scoreRelevance_def Let_def assms(2))
qed

text \<open>A query without terms: the loop over the terms adds nothing, and the score is the
  sum of the two bonuses for the whole query.\<close>

lemma scoreRelevance_without_terms:
  "q \<noteq> [] \<Longrightarrow> query_terms (lower_case J q) = [] \<Longrightarrow>
     scoreRelevance J v q =
       Inr ((if includes_str (lower_case J (transcript v)) (lower_case J q) then 15 else 0)
          + (if includes_str (lower_case J (title v)) (lower_case J q) then 25 else 0))"
  by (simp add: scoreRelevance_def Let_def)

section \<open>Facts of the reference runtime\<close>

lemma reference_sel:
  "lower_case (reference beyond) = toLowerCase"
  "canonicalize (reference beyond) = Canonicalize"
  "regexp_beyond (reference beyond) = beyond"
  by (simp_all add: reference_def)

lemma toLowerCase_Nil: "toLowerCase [] = []"
  by (simp add: toLowerCase_def)

lemma toLowerCase_Cons: "toLowerCase (c # s) = lower_units c @ toLowerCase s"
  by (simp add: toLowerCase_def)

lemma toLowerCase_append: "toLowerCase (s @ x) = toLowerCase s @ toLowerCase x"
  by (simp add: toLowerCase_def)

text \<open>In the reference runtime the lower-cased form of a text with more text appended
  goes on as that of the text, so with terms without syntax characters appended text
  never lowers the score.\<close>

lemma scoreRelevance_plain_mono_reference:
  assumes "\<forall>t \<in> set (query_terms (toLowerCase q)). \<forall>c \<in> set t. \<not> is_syntax_char c"
  shows "\<exists>n m. scoreRelevance (reference beyond) v q = Inr n
     \<and> scoreRelevance (reference beyond) (v\<lparr>transcript := transcript v @ x\<rparr>) q = Inr m
     \<and> n \<le> m"
  using assms
  by (intro scoreRelevance_plain_mono [where y = "toLowerCase x"])
    (simp_all add: reference_sel toLowerCase_append)

lemma lower_units_canon:
  "u \<noteq> 304 \<Longrightarrow> \<exists>w. lower_units u = [w] \<and> Canonicalize w = Canonicalize u"
  by (auto simp: lower_units_def Canonicalize_def)

text \<open>A term none of whose code units has the canonical form of U+0130, of the letter i
  or of U+0307 occurs in a text as often as in the lower-cased text.\<close>

lemma matches_at_toLowerCase:
  "dotless t \<Longrightarrow> matches_at Canonicalize t (toLowerCase x) = matches_at Canonicalize t x"
proof (induction t arbitrary: x)
  case Nil
  then show ?case by (simp add: matches_at_Nil)
next
  case (Cons a t)
  then have a: "Canonicalize a \<noteq> 73" "Canonicalize a \<noteq> 304" and t: "dotless t"
    by (simp_all add: dotless_def)
  show ?case
  proof (cases x)
    case Nil
    then show ?thesis by (simp add: matches_at_Cons toLowerCase_Nil)
  next
    case (Cons c x')
    show ?thesis
    proof (cases "c = 304")
      case True
      have "Canonicalize 105 = 73" "Canonicalize 304 = 304"
        by (simp_all add: Canonicalize_def)
      with a True Cons show ?thesis
        by (simp add: matches_at_Cons toLowerCase_Cons lower_units_def)
    next
      case False
      from lower_units_canon [OF this] obtain w where
        "lower_units c = [w]" "Canonicalize w = Canonicalize c"
        by blast
      with Cons Cons.IH [OF t, of x'] show ?thesis
        by (simp add: matches_at_Cons toLowerCase_Cons)
    qed
  qed
qed

lemma drop_toLowerCase:
  "\<forall>u \<in> set (take n x). u \<noteq> 304 \<Longrightarrow> drop n (toLowerCase x) = toLowerCase (drop n x)"
proof (induction x arbitrary: n)
  case Nil
  then show ?case by (simp add: toLowerCase_Nil)
next
  case (Cons c x)
  show ?case
  proof (cases n)
    case 0
    then show ?thesis by simp
  next
    case (Suc k)
    with Cons.prems have "c \<noteq> 304" and rest: "\<forall>u \<in> set (take k x). u \<noteq> 304"
      by simp_all
    from lower_units_canon [OF this(1)] obtain w where "lower_units c = [w]"
      by blast
    with Suc Cons.IH [OF rest] show ?thesis
      by (simp add: toLowerCase_Cons)
  qed
qed

lemma matches_at_without_304:
  assumes "dotless t" and "matches_at Canonicalize t s"
  shows "\<forall>u \<in> set (take (length t) s). u \<noteq> 304"
proof
  fix u
  assume "u \<in> set (take (length t) s)"
  then have "Canonicalize u \<in> set (map Canonicalize (take (length t) s))"
    by simp
  with assms(2) have "Canonicalize u \<in> set (map Canonicalize t)"
    by (simp add: matches_at_def)
  with assms(1) have "Canonicalize u \<noteq> 304"
    by (auto simp: dotless_def list_all_iff)
  then show "u \<noteq> 304"
    by (auto simp: Canonicalize_def)
qed

lemma occurrences_toLowerCase:
  assumes "dotless t"
  shows "t \<noteq> [] \<Longrightarrow>
     occurrences Canonicalize t (toLowerCase s) = occurrences Canonicalize t s"
proof (induction "length s" arbitrary: s rule: less_induct)
  case less
  show ?case
  proof (cases s)
    case Nil
    then show ?thesis by (simp add: toLowerCase_Nil)
  next
    case (Cons c s')
    from less.prems obtain a t' where t: "t = a # t'"
      by (cases t) simp_all
    with assms have a: "Canonicalize a \<noteq> 73" "Canonicalize a \<noteq> 304" "Canonicalize a \<noteq> 775"
      and t': "dotless t'"
      by (simp_all add: dotless_def)
    have IH: "occurrences Canonicalize t (toLowerCase z) = occurrences Canonicalize t z"
      if "length z \<le> length s'" for z
      using that Cons less.prems by (intro less.hyps) simp_all
    show ?thesis
    proof (cases "c = 304")
      case True
      have c: "Canonicalize 105 = 73" "Canonicalize 304 = 304" "Canonicalize 775 = 775"
        by (simp_all add: Canonicalize_def)
      from a c have "\<not> matches_at Canonicalize t (105 # 775 # toLowerCase s')"
        "\<not> matches_at Canonicalize t (775 # toLowerCase s')"
        "\<not> matches_at Canonicalize t (304 # s')"
        by (simp_all add: t matches_at_Cons)
      with True Cons IH [of s'] show ?thesis
        by (simp add: toLowerCase_Cons lower_units_def)
    next
      case False
      from lower_units_canon [OF this] obtain w where
        w: "lower_units c = [w]" "Canonicalize w = Canonicalize c"
        by blast
      have low: "toLowerCase (c # s') = w # toLowerCase s'"
        by (simp add: toLowerCase_Cons w)
      have m: "matches_at Canonicalize t (w # toLowerCase s') = matches_at Canonicalize t (c # s')"
        using matches_at_toLowerCase [OF assms, of "c # s'"] by (simp add: low)
      show ?thesis
      proof (cases "matches_at Canonicalize t (c # s')")
        case True
        then have "matches_at Canonicalize t' s'"
          by (simp add: t matches_at_Cons)
        from matches_at_without_304 [OF t' this]
        have "drop (length t') (toLowerCase s') = toLowerCase (drop (length t') s')"
          by (rule drop_toLowerCase)
        with True m Cons IH [of "drop (length t') s'"] show ?thesis
          by (simp add: low t)
      next
        case False
        with m Cons IH [of s'] show ?thesis
          by (simp add: low)
      qed
    qed
  qed
qed

section \<open>Evaluations\<close>

lemma example_terms: "query_terms (js ''bootstrap saas'') = [js ''bootstrap'', js ''saas'']"
  by code_simp

lemma example_query: "toLowerCase (js ''bootstrap SaaS'') = js ''bootstrap saas''"
  by code_simp

lemma example_title:
  "toLowerCase (js ''How I bootstrapped my SaaS to $1M'') =
     js ''how i bootstrapped my saas to $1m''"
  by code_simp

lemma example_title_terms:
  "includes_str (js ''how i bootstrapped my saas to $1m'') (js ''bootstrap'')"
  "includes_str (js ''how i bootstrapped my saas to $1m'') (js ''saas'')"
  "\<not> includes_str (js ''how i bootstrapped my saas to $1m'') (js ''bootstrap saas'')"
  by code_simp+

lemma example_plain:
  "js ''bootstrap'' \<noteq> []"
  "js ''saas'' \<noteq> []"
  "js ''bootstrap SaaS'' \<noteq> []"
  "\<forall>c \<in> set (js ''bootstrap''). \<not> is_syntax_char c"
  "\<forall>c \<in> set (js ''saas''). \<not> is_syntax_char c"
  "dotless (js ''bootstrap'')"
  "dotless (js ''saas'')"
  by code_simp+

lemma terms_parens: "query_terms (toLowerCase (js ''(('')) = [js ''((''] "
  by code_simp

lemma regexp_parens: "RegExp_gi beyond (js ''(('') = Inl SyntaxError"
proof -
  have "isl (RegExp_gi beyond (js ''((''))"
    by code_simp
  then obtain e where "RegExp_gi beyond (js ''(('') = Inl e"
    by (auto simp: isl_def)
  then show ?thesis
    by (cases e) simp
qed

lemma highlight_example:
  "highlightTerms sample_runtime (js ''My SaaS (beta) is a saas.'') (js ''saas (beta) a'') =
     Inr [\<lparr>span_text = js ''My '', highlight = False\<rparr>,
          \<lparr>span_text = js ''SaaS'', highlight = True\<rparr>,
          \<lparr>span_text = js '' '', highlight = False\<rparr>,
          \<lparr>span_text = js ''(beta)'', highlight = True\<rparr>,
          \<lparr>span_text = js '' is a '', highlight = False\<rparr>,
          \<lparr>span_text = js ''saas'', highlight = True\<rparr>,
          \<lparr>span_text = js ''.'', highlight = False\<rparr>]"
  by code_simp

lemma demo_search:
  "doKeywordSearch sample_runtime (Some demo_videos) (js ''[music]'') demo_state =
     Inr \<lparr>results =
       [\<lparr>title = js ''Pricing'', description = [], transcript = js ''pricing a saas'',
          transcriptAvailable = True, score = 5, excerpt = js ''pricing a saas''\<rparr>,
        \<lparr>title = js ''SaaS pricing'', description = js ''saas'',
          transcript = js ''saas, saas'',
          transcriptAvailable = True, score = 4, excerpt = js ''saas, saas''\<rparr>,
        \<lparr>title = js ''Cooking'', description = [], transcript = js ''salt and pepper'',
          transcriptAvailable = True, score = 1, excerpt = js ''salt and pepper''\<rparr>],
       searched = True, aiAnswer = []\<rparr>"
  by code_simp

text \<open>The example of a title with both terms, for any runtime: the counts are those of
  the lower-cased transcript, in which the program searches.\<close>

lemma example_score_any_runtime:
  assumes "lower_case J (js ''bootstrap SaaS'') = js ''bootstrap saas''"
    and "lower_case J (title v) = js ''how i bootstrapped my saas to $1m''"
    and "lower_case J (description v) = []"
    and "occurrences (canonicalize J) (js ''bootstrap'') (lower_case J (transcript v)) = 3"
    and "occurrences (canonicalize J) (js ''saas'') (lower_case J (transcript v)) = 5"
    and "\<not> includes_str (lower_case J (transcript v)) (js ''bootstrap saas'')"
  shows "scoreRelevance J v (js ''bootstrap SaaS'') = Inr 18"
proof -
  have b: "score_term J (js ''how i bootstrapped my saas to $1m'')
      (lower_case J (transcript v)) [] (js ''bootstrap'') 0 = Inr 8"
    using assms(4)
    by (simp add: score_term_plain example_plain example_title_terms)
  have s: "score_term J (js ''how i bootstrapped my saas to $1m'')
      (lower_case J (transcript v)) [] (js ''saas'') 8 = Inr 18"
    using assms(5)
    by (simp add: score_term_plain example_plain example_title_terms)
  show ?thesis
    using assms(1,2,3,6)
    by (simp add: scoreRelevance_def example_terms example_title_terms example_plain b s Let_def)
qed

lemma long_excerpt:
  "extractExcerpt sample_runtime
     (js (replicate 28 CHR ''a'' @ '' '' @ replicate 323 CHR ''a'' @ ''zz''
          @ replicate 30 CHR ''b''))
     (js ''zz'') =
     Inr (js (''...'' @ replicate 323 CHR ''a'' @ ''zz'' @ replicate 25 CHR ''b'' @ ''...''))"
  by code_simp

section \<open>The properties\<close>

text \<open>
  C1. The claim: for every document and every query, also one whose terms hold syntax
  characters of the pattern language, \<^verbatim>\<open>scoreRelevance\<close> and \<^verbatim>\<open>extractExcerpt\<close>
  return a result and raise no error. The code builds the pattern from the term as it
  stands: with the query \<^verbatim>\<open>((\<close> the scorer raises a SyntaxError on every document,
  and the excerpt locator raises it on a text of 101 characters, while
  \<^verbatim>\<open>highlightTerms\<close>, which escapes its terms, returns its spans on the same query.
  A term that is a well-formed pattern is matched as a pattern: the query \<^verbatim>\<open>a+b\<close>
  finds one match in the transcript \<^verbatim>\<open>aab\<close>, where the term does not occur.
\<close>

theorem C1_unescaped_term_raises:
  "scoreRelevance (reference beyond) v (js ''(('') = Inl SyntaxError
   \<and> extractExcerpt (reference beyond) (js (replicate 101 CHR ''x'')) (js ''(('')
       = Inl SyntaxError
   \<and> highlightTerms (reference beyond) (js ''f((x'') (js ''(('') =
       Inr [\<lparr>span_text = js ''f'', highlight = False\<rparr>,
            \<lparr>span_text = js ''(('', highlight = True\<rparr>,
            \<lparr>span_text = js ''x'', highlight = False\<rparr>]
   \<and> scoreRelevance (reference beyond) \<lparr>title = js ''T'', description = [],
        transcript = js ''aab'', transcriptAvailable = True\<rparr> (js ''a+b'') = Inr 1"
proof (intro conjI)
  show "scoreRelevance (reference beyond) \<lparr>title = js ''T'', description = [],
        transcript = js ''aab'', transcriptAvailable = True\<rparr> (js ''a+b'') = Inr 1"
    by code_simp
  have "js ''(('' \<noteq> []"
    by code_simp
  then show "scoreRelevance (reference beyond) v (js ''(('') = Inl SyntaxError"
    by (simp add: scoreRelevance_def reference_sel terms_parens score_term_def regexp_parens
        Let_def)
  show "extractExcerpt (reference beyond) (js (replicate 101 CHR ''x'')) (js ''(('')
      = Inl SyntaxError"
    by code_simp
  show "highlightTerms (reference beyond) (js ''f((x'') (js ''(('') =
       Inr [\<lparr>span_text = js ''f'', highlight = False\<rparr>,
            \<lparr>span_text = js ''(('', highlight = True\<rparr>,
            \<lparr>span_text = js ''x'', highlight = False\<rparr>]"
    by code_simp
qed

text \<open>
  C2. For every text and every query \<^verbatim>\<open>highlightTerms\<close> returns spans, and their
  texts, put together in order, are the text. This holds for every runtime.
\<close>

theorem C2_lossless_partition:
  "\<exists>spans. highlightTerms J text query = Inr spans \<and> concat (map span_text spans) = text"
proof (cases "text = [] \<or> query = [] \<or> query_terms query = []")
  case True
  then show ?thesis
    by (auto simp: highlightTerms_def Let_def)
next
  case False
  then show ?thesis
    by (simp add: highlightTerms_pattern label_parts_texts split_from_concat)
qed

theorem C2_lossless_partition_witness:
  "\<exists>spans. highlightTerms sample_runtime (js ''My SaaS (beta) is a saas.'')
       (js ''saas (beta) a'') = Inr spans
     \<and> length spans = 7
     \<and> concat (map span_text spans) = js ''My SaaS (beta) is a saas.''"
  using C2_lossless_partition [of sample_runtime "js ''My SaaS (beta) is a saas.''"
      "js ''saas (beta) a''"]
  by (simp add: highlight_example)

text \<open>
  C3. The claim: the score is 0 whenever the query is blank or has no term. The code
  returns 0 for the empty query only. The query \<^verbatim>\<open>a\<close> has no term, and so has the
  query of one space; with either, the loop over the terms adds nothing, the bonus for
  the whole query is still given, and a document whose transcript is
  \<^verbatim>\<open>we had a plan\<close> scores 15.
\<close>

theorem C3_query_without_terms_scores:
  "query_terms (toLowerCase (js ''a'')) = []
   \<and> scoreRelevance (reference beyond) \<lparr>title = js ''Pricing'', description = [],
        transcript = js ''we had a plan'', transcriptAvailable = True\<rparr> (js ''a'') = Inr 15
   \<and> query_terms (toLowerCase (js '' '')) = []
   \<and> scoreRelevance (reference beyond) \<lparr>title = js ''Pricing'', description = [],
        transcript = js ''we had a plan'', transcriptAvailable = True\<rparr> (js '' '') = Inr 15"
  by code_simp

text \<open>
  C4. When the search runs (the database is loaded and the query is not blank) and
  returns, every document in the results has a score that is not 0, and that score is
  what \<^verbatim>\<open>scoreRelevance\<close> gives for it; there are at most 25 results; the scores
  do not increase along the list. This holds for every runtime, so for every query,
  whatever patterns its terms are; the one other outcome of the search is that the
  construction of a pattern raises.
\<close>

theorem C4_ranking:
  assumes "database \<noteq> None" and "\<not> trim_is_empty query"
    and "doKeywordSearch J database query st = Inr st'"
  shows "(\<forall>r \<in> set (results st'). score r \<noteq> 0 \<and> scoreRelevance J r query = Inr (score r))
    \<and> length (results st') \<le> 25
    \<and> sorted_wrt (\<lambda>a b. score b \<le> score a) (results st')"
proof -
  from assms obtain scored where
    scored: "score_all J (videosWithTranscripts database) query = Inr scored"
    and st': "results st' = rank_scored scored"
    by (auto simp: doKeywordSearch_def split: sum.splits)
  from rank_scored_set [of scored] score_all_scores [OF scored]
  have "\<forall>r \<in> set (results st'). score r \<noteq> 0 \<and> scoreRelevance J r query = Inr (score r)"
    unfolding st' by fastforce
  with rank_scored_length [of scored] rank_scored_sorted [of scored] show ?thesis
    unfolding st' by simp
qed

theorem C4_ranking_witness:
  "\<exists>st'. doKeywordSearch sample_runtime (Some demo_videos) (js ''[music]'') demo_state = Inr st'
     \<and> map score (results st') = [5, 4, 1]
     \<and> list_all (\<lambda>r. score r \<noteq> 0
          \<and> scoreRelevance sample_runtime r (js ''[music]'') = Inr (score r)) (results st')
     \<and> length (results st') \<le> 25
     \<and> sorted_wrt (\<lambda>a b. score b \<le> score a) (results st')"
proof -
  have "\<not> trim_is_empty (js ''[music]'')"
    by code_simp
  from C4_ranking [OF _ this demo_search] show ?thesis
    by (simp add: demo_search list_all_iff)
qed

text \<open>
  C5. An excerpt that \<^verbatim>\<open>extractExcerpt\<close> returns has at most 350 + 6 code units: at
  most 350 of the text and the two markers of three. This holds for every runtime, so for
  every query, whatever patterns its terms are; the one other outcome is that the
  construction of a pattern raises. The bound is reached: on a text of 384 code units
  whose best window starts at 30, the excerpt starts behind the space at 28, is cut after
  350 code units and has both markers.
\<close>

theorem C5_excerpt_length:
  assumes "extractExcerpt J text query = Inr e"
  shows "length e \<le> 350 + 6"
proof (cases "text = [] \<or> query = []")
  case True
  with assms show ?thesis
    by (auto simp: extractExcerpt_def slice_def maxLen_def ellipsis_def split: if_splits)
next
  case False
  with assms obtain bestPos where "e = excerpt_at text bestPos"
    by (auto simp: extractExcerpt_def Let_def split: sum.splits)
  with excerpt_at_length [of "text" bestPos] show ?thesis
    by simp
qed

theorem C5_excerpt_length_witness:
  "extractExcerpt sample_runtime
     (js (replicate 28 CHR ''a'' @ '' '' @ replicate 323 CHR ''a'' @ ''zz''
          @ replicate 30 CHR ''b''))
     (js ''zz'') =
     Inr (js (''...'' @ replicate 323 CHR ''a'' @ ''zz'' @ replicate 25 CHR ''b'' @ ''...''))
   \<and> length (js (''...'' @ replicate 323 CHR ''a'' @ ''zz'' @ replicate 25 CHR ''b''
        @ ''...'')) = 356
   \<and> length (js (''...'' @ replicate 323 CHR ''a'' @ ''zz'' @ replicate 25 CHR ''b''
        @ ''...'')) \<le> 350 + 6"
proof -
  have len: "length (js (''...'' @ replicate 323 CHR ''a'' @ ''zz'' @ replicate 25 CHR ''b''
      @ ''...'')) = 356"
    by (simp add: js_def)
  have bound: "length (js (''...'' @ replicate 323 CHR ''a'' @ ''zz'' @ replicate 25 CHR ''b''
      @ ''...'')) \<le> 350 + 6"
    using long_excerpt by (rule C5_excerpt_length)
  show ?thesis
    by (intro conjI long_excerpt len bound)
qed

text \<open>
  C6. The claim: one more literal occurrence of a query term at the end of the transcript
  never lowers the score. The code counts the matches of the term read as a pattern: in
  the term \<^verbatim>\<open>100$\<close> the dollar sign is the anchor of the end of the input. The
  transcript \<^verbatim>\<open>100$ or 100\<close> has the term once and scores 16 (one match at the end,
  and the bonus of 15); with \<^verbatim>\<open> 100$\<close> appended nothing matches and the score
  is 15. For queries whose terms have no syntax character the score never goes down
  (\<open>scoreRelevance_plain_mono\<close>, \<open>scoreRelevance_plain_mono_reference\<close>), and a term
  with 20 matches or more adds 20 for them (\<open>score_term_cap\<close>).
\<close>

theorem C6_extra_occurrence_lowers_score:
  "scoreRelevance (reference beyond) \<lparr>title = js ''Pricing'', description = [],
        transcript = js ''100$ or 100'', transcriptAvailable = True\<rparr> (js ''100$'') = Inr 16
   \<and> scoreRelevance (reference beyond) \<lparr>title = js ''Pricing'', description = [],
        transcript = js ''100$ or 100'' @ js '' 100$'', transcriptAvailable = True\<rparr>
        (js ''100$'') = Inr 15"
  by code_simp

text \<open>
  C7, as the code has it. For every text and every query \<^verbatim>\<open>highlightTerms\<close> returns
  spans. For the empty text it is the one span of the empty text, not highlighted. For
  any other text a span is highlighted exactly when its text is a term of the query of
  more than one code unit, either up to the canonical form by which the pattern compares
  or up to \<^verbatim>\<open>toLowerCase\<close>. This holds for every runtime, with the \<^verbatim>\<open>lastIndex\<close> of
  the pattern going from one call of \<^verbatim>\<open>test\<close> to the next: a piece between two
  matches holds no match of a term, so the test fails on it from any index and leaves the
  index 0, and the test of a matched piece, which starts at 0, succeeds.
\<close>

theorem C7_highlight_labels:
  "\<exists>spans. highlightTerms J text query = Inr spans
     \<and> (text = [] \<longrightarrow> spans = [\<lparr>span_text = [], highlight = False\<rparr>])
     \<and> (text \<noteq> [] \<longrightarrow>
          (\<forall>sp \<in> set spans.
             highlight sp =
               (\<exists>t \<in> set (split_ws query). 1 < length t
                   \<and> (map (canonicalize J) (span_text sp) = map (canonicalize J) t
                      \<or> lower_case J (span_text sp) = lower_case J t))))"
proof (cases "text = [] \<or> query = [] \<or> query_terms query = []")
  case True
  show ?thesis
  proof (cases "text = []")
    case True
    then show ?thesis
      by (simp add: highlightTerms_def)
  next
    case False
    with \<open>text = [] \<or> query = [] \<or> query_terms query = []\<close>
    have "query_terms query = []"
      by (auto simp: query_terms_def split_ws_def)
    then have "\<not> (\<exists>t \<in> set (split_ws query). 1 < length t \<and> P t)" for P
      by (auto simp: query_terms_def filter_empty_conv)
    with False \<open>query_terms query = []\<close> show ?thesis
      by (auto simp: highlightTerms_def Let_def)
  qed
next
  case False
  then have ts: "query_terms query \<noteq> []" by simp
  have "alternating (quiet (canonicalize J) (query_terms query))
      (folded_term (canonicalize J) (query_terms query))
      (split_from (canonicalize J) (alt_lits (query_terms query)) text 0 0)"
    by (rule split_from_alternating [OF ts query_terms_nonempty]) simp_all
  from label_parts_highlight [OF ts query_terms_nonempty this, of 0] False show ?thesis
    by (auto simp: highlightTerms_pattern folded_term_def lowered_term_def query_terms_def
        list_ex_iff)
qed

theorem C7_highlight_labels_witness:
  "\<exists>spans. highlightTerms sample_runtime (js ''My SaaS (beta) is a saas.'')
       (js ''saas (beta) a'') = Inr spans
     \<and> map highlight spans = [False, True, False, True, False, True, False]
     \<and> list_all (\<lambda>sp. highlight sp =
          list_ex (\<lambda>t. 1 < length t
              \<and> (map (canonicalize sample_runtime) (span_text sp)
                   = map (canonicalize sample_runtime) t
                 \<or> lower_case sample_runtime (span_text sp) = lower_case sample_runtime t))
            (split_ws (js ''saas (beta) a''))) spans"
proof -
  have "js ''My SaaS (beta) is a saas.'' \<noteq> []"
    by code_simp
  with C7_highlight_labels [of sample_runtime "js ''My SaaS (beta) is a saas.''"
      "js ''saas (beta) a''"]
  show ?thesis
    by (simp add: highlight_example list_ex_iff list_all_iff)
qed

text \<open>
  C7, as the claim states it: a span is highlighted exactly when its lower-cased text is
  the lower-cased form of a term, the comparison that follows the test of the pattern in
  the code. The pattern compares by the upper-case form of each code unit, in which the
  two small sigmas U+03C2 and U+03C3 are the same; \<^verbatim>\<open>toLowerCase\<close> leaves both as they
  are. With the text U+03C2 U+03C2 and the query U+03C3 U+03C3 the text is a match and
  its span is highlighted, and the lower-cased text is not the lower-cased term.
\<close>

theorem C7_counterexample:
  "\<forall>beyond.
     highlightTerms (reference beyond) [962, 962] [963, 963] =
       Inr [\<lparr>span_text = [], highlight = False\<rparr>,
            \<lparr>span_text = [962, 962], highlight = True\<rparr>,
            \<lparr>span_text = [], highlight = False\<rparr>]
     \<and> split_ws [963, 963] = [[963, 963]]
     \<and> lower_case (reference beyond) [962, 962] \<noteq> lower_case (reference beyond) [963, 963]"
  by (intro allI) code_simp

text \<open>
  C8. A document with the title \<^verbatim>\<open>How I bootstrapped my SaaS to $1M\<close>, no description,
  and a transcript with 3 occurrences of \<^verbatim>\<open>bootstrap\<close> and 5 of \<^verbatim>\<open>saas\<close> (counted up
  to case, from the left, without overlap) in which the lower-cased query does not occur
  scores 18 for the query \<^verbatim>\<open>bootstrap SaaS\<close>. The program searches the lower-cased
  transcript; neither term has a code unit that lower-casing brings in or takes away, so
  the counts are those of the transcript as it stands.
\<close>

theorem C8_example_score:
  assumes "title v = js ''How I bootstrapped my SaaS to $1M''" and "description v = []"
    and "occurrences Canonicalize (js ''bootstrap'') (transcript v) = 3"
    and "occurrences Canonicalize (js ''saas'') (transcript v) = 5"
    and "\<not> includes_str (toLowerCase (transcript v)) (js ''bootstrap saas'')"
  shows "scoreRelevance (reference beyond) v (js ''bootstrap SaaS'') = Inr 18"
  using assms
  by (intro example_score_any_runtime)
    (simp_all add: reference_sel example_query example_title toLowerCase_Nil
      occurrences_toLowerCase example_plain)

theorem C8_example_score_witness:
  "occurrences Canonicalize (js ''bootstrap'') (transcript example_video) = 3
   \<and> occurrences Canonicalize (js ''saas'') (transcript example_video) = 5
   \<and> \<not> includes_str (toLowerCase (transcript example_video)) (js ''bootstrap saas'')
   \<and> scoreRelevance sample_runtime example_video (js ''bootstrap SaaS'') = Inr 18"
proof -
  have 1: "occurrences Canonicalize (js ''bootstrap'') (transcript example_video) = 3"
    by code_simp
  have 2: "occurrences Canonicalize (js ''saas'') (transcript example_video) = 5"
    by code_simp
  have 3: "\<not> includes_str (toLowerCase (transcript example_video)) (js ''bootstrap saas'')"
    by code_simp
  have 4: "title example_video = js ''How I bootstrapped my SaaS to $1M''"
    "description example_video = []"
    by (simp_all add: example_video_def)
  from C8_example_score [OF 4 1 2 3] 1 2 3 show ?thesis
    by (simp add: sample_runtime_def)
qed

text \<open>
  C9. The claim: the excerpt ends with a marker exactly when it does not reach the end
  of the text, also when the trimming at the last space has shortened it. The code
  decides on the marker from the window before the trimming
  (\<^verbatim>\<open>start + maxLen < text.length\<close>). On a text of 300 characters whose only space
  is at index 250 the window reaches the end, the excerpt is trimmed to the first 250
  characters, and no marker follows.
\<close>

theorem C9_trimmed_excerpt_without_marker:
  "length (js (replicate 250 CHR ''a'' @ '' '' @ replicate 49 CHR ''b'')) = 300
   \<and> extractExcerpt (reference beyond)
       (js (replicate 250 CHR ''a'' @ '' '' @ replicate 49 CHR ''b'')) (js ''z'')
       = Inr (js (replicate 250 CHR ''a''))"
  by code_simp

text \<open>
  C10, as the code has it. The loop over the windows runs on the lower-cased text. For a
  text whose lower-cased form has at most 100 code units the loop makes no round: whatever
  the terms are, it returns the position 0 and builds no pattern. When the text has at
  most 100 code units as well and does not begin with a space, the excerpt is the text
  itself, with no marker. This holds for every runtime.
\<close>

theorem C10_short_text:
  assumes "text \<noteq> []" and "length text \<le> 100" and "length (lower_case J text) \<le> 100"
    and "query \<noteq> []"
  shows "scan_windows J (lower_case J text) terms 0 0 0 = Inr 0
    \<and> (hd text \<noteq> space \<longrightarrow> extractExcerpt J text query = Inr text)"
proof (intro conjI impI)
  show scan: "scan_windows J (lower_case J text) terms 0 0 0 = Inr 0" for terms
    using assms(3) by (simp add: scan_windows_short)
  assume "hd text \<noteq> space"
  with assms(1) have start: "text ! 0 \<noteq> space"
    by (simp add: hd_conv_nth)
  have "lastIndexOf text space (length text) < int (length text)"
    by (rule lastIndexOf_less)
  with assms(2) have no_trim: "\<not> above_70_percent (lastIndexOf text space (length text))"
    by (simp add: above_70_percent_def)
  from assms(2) have whole: "slice text 0 maxLen = text"
    by (simp add: slice_all maxLen_def)
  from assms(2) have no_suffix: "\<not> maxLen < length text"
    by (simp add: maxLen_def)
  show "extractExcerpt J text query = Inr text"
    using assms(1,4) no_trim no_suffix start
    by (simp add: extractExcerpt_def excerpt_at_def scan whole Let_def)
qed

theorem C10_short_text_witness:
  "js ''a (( b'' \<noteq> [] \<and> length (js ''a (( b'') \<le> 100
   \<and> length (lower_case sample_runtime (js ''a (( b'')) \<le> 100 \<and> js ''(('' \<noteq> []
   \<and> scan_windows sample_runtime (lower_case sample_runtime (js ''a (( b'')) [js ''((''] 0 0 0
       = Inr 0
   \<and> hd (js ''a (( b'') \<noteq> space
   \<and> extractExcerpt sample_runtime (js ''a (( b'') (js ''(('') = Inr (js ''a (( b'')"
proof -
  have h: "js ''a (( b'' \<noteq> []" "length (js ''a (( b'') \<le> 100"
    "length (lower_case sample_runtime (js ''a (( b'')) \<le> 100" "js ''(('' \<noteq> []"
    "hd (js ''a (( b'') \<noteq> space"
    by code_simp+
  from C10_short_text [OF h(1-4), of "[js ''((''] "] h show ?thesis
    by simp
qed

text \<open>
  C10, as the claim states it: for every text of at most 100 code units. The lower-cased
  form of U+0130 has two code units. The lower-cased form of a text of 60 times U+0130,
  which does not begin with a space, has 120 code units: the loop makes a round, and with
  the query \<^verbatim>\<open>((\<close> the construction of the pattern raises.
\<close>

theorem C10_counterexample:
  "\<forall>beyond.
     replicate 60 304 \<noteq> [] \<and> length (replicate 60 (304 :: code_unit)) \<le> 100
     \<and> hd (replicate 60 304) \<noteq> space
     \<and> length (lower_case (reference beyond) (replicate 60 304)) = 120
     \<and> extractExcerpt (reference beyond) (replicate 60 304) (js ''(('') = Inl SyntaxError"
  by (intro allI) code_simp

end
